theory Spec2Isabelle
  imports Main
begin

text \<open>
  Indonesian-style number formatting and parsing (\<open>formatIdr\<close>, \<open>parseIdr\<close>) of the
  package idr-formatting, in the version that rounds on digit strings with BigInt: a
  functional model of \<open>src/index.ts\<close> and the properties of it that hold or fail.
\<close>

section \<open>JavaScript primitives used by the formatter\<close>

text \<open>
  Strings are sequences of code units; the model takes the 8-bit units of \<^typ>\<open>char\<close>.
  \<open>\d\<close> is the class \<open>[0-9]\<close>; \<open>\s\<close> and \<open>trim()\<close> use the white space and line
  terminator units, of which tab, LF, VT, FF, CR, space and NBSP lie in this range.
\<close>

definition isDigit :: "char \<Rightarrow> bool" where
  "isDigit c \<longleftrightarrow> c \<in> set ''0123456789''"

definition isSpace :: "char \<Rightarrow> bool" where
  "isSpace c \<longleftrightarrow>
     c \<in> set [CHR 0x09, CHR 0x0A, CHR 0x0B, CHR 0x0C, CHR 0x0D, CHR '' '', CHR 0xA0]"

definition trim :: "string \<Rightarrow> string" where
  "trim s = rev (dropWhile isSpace (rev (dropWhile isSpace s)))"

definition startsWith :: "string \<Rightarrow> char \<Rightarrow> bool" where
  "startsWith s c = (case s of [] \<Rightarrow> False | x # _ \<Rightarrow> x = c)"

text \<open>\<open>a || b\<close> on strings: the empty string is the only falsy one.\<close>

definition orElse :: "string \<Rightarrow> string \<Rightarrow> string" where
  "orElse a b = (if a = [] then b else a)"

definition padEnd :: "nat \<Rightarrow> char \<Rightarrow> string \<Rightarrow> string" where
  "padEnd n c s = s @ replicate (n - length s) c"

definition padStart :: "nat \<Rightarrow> char \<Rightarrow> string \<Rightarrow> string" where
  "padStart n c s = replicate (n - length s) c @ s"

text \<open>\<open>s.indexOf(c)\<close>, with \<open>None\<close> for the result \<open>-1\<close>.\<close>

definition indexOf :: "char \<Rightarrow> string \<Rightarrow> nat option" where
  "indexOf c s = (if c \<in> set s then Some (length (takeWhile (\<lambda>x. x \<noteq> c) s)) else None)"

text \<open>\<open>s.split(c)\<close> for a one-character separator: never the empty array.\<close>

function splitOn :: "char \<Rightarrow> string \<Rightarrow> string list" where
  "splitOn c s =
     (if c \<in> set s
      then takeWhile (\<lambda>x. x \<noteq> c) s # splitOn c (tl (dropWhile (\<lambda>x. x \<noteq> c) s))
      else [s])"
  by pat_completeness auto
termination
proof (relation "measure (\<lambda>(c, s). length s)")
  show "wf (measure (\<lambda>(c, s). length s))" by simp
next
  fix c :: char and s :: string
  assume "c \<in> set s"
  then have "dropWhile (\<lambda>x. x \<noteq> c) s \<noteq> []" by simp
  then have "length (tl (dropWhile (\<lambda>x. x \<noteq> c) s)) < length (dropWhile (\<lambda>x. x \<noteq> c) s)"
    by (cases "dropWhile (\<lambda>x. x \<noteq> c) s") simp_all
  also have "\<dots> \<le> length s" by (rule length_dropWhile_le)
  finally show "((c, tl (dropWhile (\<lambda>x. x \<noteq> c) s)), (c, s)) \<in> measure (\<lambda>(c, s). length s)"
    by simp
qed

text \<open>
  Array destructuring with a default, \<open>const [a, b = ""] = parts\<close>: an index past the end
  reads \<open>undefined\<close>, which the default (or a following \<open>|| ""\<close>) turns into the empty string.
\<close>

definition elemOr :: "string list \<Rightarrow> nat \<Rightarrow> string" where
  "elemOr parts i = (if i < length parts then parts ! i else [])"

subsection \<open>BigInt\<close>

definition digitVal :: "char \<Rightarrow> nat" where
  "digitVal c = of_char c - 48"

definition digitChar :: "nat \<Rightarrow> char" where
  "digitChar d = ''0123456789'' ! d"

text \<open>
  \<open>BigInt(s)\<close> for a string of decimal digits. Every call in the source passes the result
  of a \<open>\D\<close>-strip followed by \<open>|| "0"\<close>, so the SyntaxError of other strings cannot arise.
\<close>

definition natOfDigits :: "string \<Rightarrow> nat" where
  "natOfDigits s = foldl (\<lambda>a c. 10 * a + digitVal c) 0 s"

definition BigInt :: "string \<Rightarrow> int" where
  "BigInt s = int (natOfDigits s)"

function natToString :: "nat \<Rightarrow> string" where
  "natToString n = (if n < 10 then [digitChar n] else natToString (n div 10) @ [digitChar (n mod 10)])"
  by pat_completeness auto
termination
  by (relation "measure id") auto

text \<open>\<open>b.toString()\<close> of a bigint.\<close>

definition bigintToString :: "int \<Rightarrow> string" where
  "bigintToString b = (if b < 0 then CHR ''-'' # natToString (nat (- b)) else natToString (nat b))"

section \<open>Data model\<close>

datatype IdxSign = Pos | Neg

text \<open>
  \<open>FixedIdr\<close>: the three data fields. Its two methods close over the fields at
  construction (\<open>makeFixed\<close> is the only constructor), so \<open>toString\<close> is a function of the record.
\<close>

record FixedIdr =
  sign :: IdxSign
  units :: int
  scale :: nat

datatype ParseMode = NumberMode | FixedMode

text \<open>\<open>decimals\<close> is \<open>"auto"\<close> or a number; the model takes the integers.\<close>

datatype DecimalsOpt = Auto | Decimals int

record FormatIdrOptions =
  decimals :: DecimalsOpt
  padZeros :: bool

definition defaultOptions :: FormatIdrOptions where
  "defaultOptions = \<lparr>decimals = Auto, padZeros = False\<rparr>"

text \<open>
  The argument of both entry points. A number is used only through \<open>String(value)\<close>, so
  \<open>Num s\<close> carries that rendering; \<open>Null\<close> stands for \<open>null\<close> and \<open>undefined\<close>.
\<close>

datatype jsvalue = Null | Str string | Num string | FixedV FixedIdr

text \<open>
  The result of \<open>parseIdr\<close>. In number mode the source returns \<open>Number(lit)\<close> when that is
  finite and \<open>null\<close> otherwise; the conversion to a double is outside the model and
  \<open>ParsedNumber lit\<close> stands for that result.
\<close>

datatype parsed = ParsedNull | ParsedNumber string | ParsedFixed FixedIdr

section \<open>Helpers\<close>

text \<open>\<open>digits.replace(/^0+(?!$)/, "")\<close>: leading zeros go, but never the last character.\<close>

definition stripLeadingZeros :: "string \<Rightarrow> string" where
  "stripLeadingZeros s =
     (let r = dropWhile (\<lambda>c. c = CHR ''0'') s in if r = [] \<and> s \<noteq> [] then ''0'' else r)"

text \<open>The loop of \<open>groupThousandsStr\<close>: \<open>i\<close> runs down from the length in steps of three.\<close>

function groupLoop :: "string \<Rightarrow> nat \<Rightarrow> string \<Rightarrow> string" where
  "groupLoop digits i out =
     (if i = 0 then out
      else let start = i - 3;
               chunk = take (i - start) (drop start digits)
           in groupLoop digits (i - 3) (if out \<noteq> [] then chunk @ ''.'' @ out else chunk))"
  by pat_completeness auto
termination
  by (relation "measure (\<lambda>(digits, i, out). i)") auto

definition groupThousandsStr :: "string \<Rightarrow> string" where
  "groupThousandsStr digits =
     (let d = orElse (stripLeadingZeros digits) ''0'' in groupLoop d (length d) [])"

definition applyFixedDecimals :: "string \<Rightarrow> string \<Rightarrow> int \<Rightarrow> string \<times> string" where
  "applyFixedDecimals intDigits decDigits n =
     (let cleanI = orElse (filter isDigit (orElse intDigits ''0'')) ''0'';
          cleanD = filter isDigit decDigits
      in if n \<le> 0 then
           (let carry = (case cleanD of [] \<Rightarrow> 0 | c # _ \<Rightarrow> if 5 \<le> digitVal c then 1 else 0)
            in (bigintToString (BigInt cleanI + carry), []))
         else if length cleanD = nat n then (cleanI, cleanD)
         else if length cleanD < nat n then (cleanI, padEnd (nat n) CHR ''0'' cleanD)
         else
           (let keep = take (nat n) cleanD;
                next = cleanD ! nat n
            in if digitVal next < 5 then (cleanI, keep)
               else
                 (let inc = padStart (length cleanI + length keep) CHR ''0''
                              (bigintToString (BigInt (cleanI @ keep) + 1));
                      newI = orElse (take (length inc - nat n) inc) ''0'';
                      newD = drop (length inc - nat n) inc
                  in (newI, newD))))"

definition keepFirstCommaOnly :: "string \<Rightarrow> string" where
  "keepFirstCommaOnly s =
     (case indexOf CHR '','' s of
        None \<Rightarrow> s
      | Some idx \<Rightarrow> take (idx + 1) s @ filter (\<lambda>c. c \<noteq> CHR '','') (drop (idx + 1) s))"

definition makeFixed :: "IdxSign \<Rightarrow> string \<Rightarrow> string \<Rightarrow> FixedIdr" where
  "makeFixed sg intDigits decDigits =
     (let i = orElse (stripLeadingZeros intDigits) ''0'';
          d = filter isDigit decDigits
      in \<lparr>sign = sg, units = BigInt (i @ d), scale = length d\<rparr>)"

definition signPrefix :: "bool \<Rightarrow> string" where
  "signPrefix negative = (if negative then ''-'' else [])"

definition toString :: "FixedIdr \<Rightarrow> string" where
  "toString fx =
     (if scale fx = 0 then signPrefix (sign fx = Neg) @ bigintToString (units fx)
      else
        (let s = padStart (scale fx + 1) CHR ''0'' (bigintToString (units fx));
             head = take (length s - scale fx) s;
             tail = drop (length s - scale fx) s
         in signPrefix (sign fx = Neg) @ head @ ''.'' @ tail))"

section \<open>formatIdr\<close>

text \<open>
  The pattern \<open>/^\d{1,3}(\.\d{3})+$/\<close>: a maximal run of one to three digits, then one or
  more groups of a dot and exactly three digits, up to the end of the text.
\<close>

fun dotGroups :: "string \<Rightarrow> bool" where
  "dotGroups (p # a # b # c # rest) =
     (p = CHR ''.'' \<and> isDigit a \<and> isDigit b \<and> isDigit c \<and> (rest = [] \<or> dotGroups rest))"
| "dotGroups _ = False"

definition thousandPattern :: "string \<Rightarrow> bool" where
  "thousandPattern s =
     (let lead = takeWhile isDigit s
      in 1 \<le> length lead \<and> length lead \<le> 3 \<and> dotGroups (dropWhile isDigit s))"

text \<open>The inner function \<open>finish\<close>; \<open>None\<close> is the omitted second argument.\<close>

definition finish :: "FormatIdrOptions \<Rightarrow> string \<Rightarrow> string option \<Rightarrow> string" where
  "finish options intDigits rawDecimals =
     (case decimals options of
        Auto \<Rightarrow>
          (let iFmt = groupThousandsStr intDigits
           in case rawDecimals of
                None \<Rightarrow> iFmt
              | Some rd \<Rightarrow>
                  if rd = [] then iFmt
                  else iFmt @ '','' @ (if padZeros options then padEnd 2 CHR ''0'' rd else rd))
      | Decimals n \<Rightarrow>
          (let (i, d) = applyFixedDecimals intDigits (case rawDecimals of None \<Rightarrow> [] | Some rd \<Rightarrow> rd) n;
               iFmt = groupThousandsStr i
           in if 0 < n then iFmt @ '','' @ d else iFmt))"

text \<open>
  The three-way branch of \<open>formatIdr\<close> on the text after the sign: the arguments each
  branch hands to \<open>finish\<close>.
\<close>

definition classify :: "string \<Rightarrow> string \<times> string option" where
  "classify str =
     (if CHR '','' \<in> set str then
        (let only = filter (\<lambda>c. isDigit c \<or> c = CHR '','') str;
             raw = keepFirstCommaOnly only;
             parts = splitOn CHR '','' raw;
             intDigits = orElse (filter isDigit (elemOr parts 0)) ''0'';
             decDigits = filter isDigit (elemOr parts 1)
         in (intDigits, Some decDigits))
      else if CHR ''.'' \<in> set str then
        (let s = filter (\<lambda>c. \<not> isSpace c) str
         in if thousandPattern s then (orElse (filter (\<lambda>c. c \<noteq> CHR ''.'') s) ''0'', None)
            else
              (let parts = take 2 (splitOn CHR ''.'' s);
                   intDigits = orElse (filter isDigit (elemOr parts 0)) ''0'';
                   decDigits = filter isDigit (elemOr parts 1)
               in (intDigits, Some decDigits)))
      else (orElse (filter isDigit str) ''0'', None))"

text \<open>The body of \<open>formatIdr\<close> from \<open>String(value).trim()\<close> on.\<close>

definition formatText :: "string \<Rightarrow> FormatIdrOptions \<Rightarrow> string" where
  "formatText text options =
     (let str0 = trim text;
          negative = startsWith str0 CHR ''-'';
          str = (if negative then drop 1 str0 else str0);
          (intDigits, rawDecimals) = classify str;
          display = finish options intDigits rawDecimals
      in if negative then CHR ''-'' # display else display)"

text \<open>
  The entry point: null, undefined and the empty text give the empty text; a FixedIdr is
  formatted through its canonical string.
\<close>

fun formatIdr :: "jsvalue \<Rightarrow> FormatIdrOptions \<Rightarrow> string" where
  "formatIdr Null options = []"
| "formatIdr (Str s) options = (if s = [] then [] else formatText s options)"
| "formatIdr (Num s) options = formatText s options"
| "formatIdr (FixedV fx) options =
     (let s = toString fx in if s = [] then [] else formatText s options)"

section \<open>parseIdr\<close>

text \<open>\<open>s.replace(",", ".")\<close> with a string pattern: the first occurrence only.\<close>

fun replaceFirst :: "char \<Rightarrow> char \<Rightarrow> string \<Rightarrow> string" where
  "replaceFirst a b [] = []"
| "replaceFirst a b (x # xs) = (if x = a then b # xs else x # replaceFirst a b xs)"

definition parseText :: "ParseMode \<Rightarrow> string \<Rightarrow> parsed" where
  "parseText mode text =
     (let s0 = trim text;
          isNegative = startsWith s0 CHR ''-'';
          s1 = (if isNegative then drop 1 s0 else s0);
          s2 = filter (\<lambda>c. isDigit c \<or> c = CHR ''.'' \<or> c = CHR '','') s1
      in if s2 = [] then ParsedNull
         else
           (let s3 = keepFirstCommaOnly s2;
                normalized = replaceFirst CHR '','' CHR ''.'' (filter (\<lambda>c. c \<noteq> CHR ''.'') s3)
            in if normalized = [] \<or> normalized = ''.'' then ParsedNull
               else
                 (let parts = splitOn CHR ''.'' normalized;
                      intDigits = orElse (filter isDigit (elemOr parts 0)) ''0'';
                      decDigits = filter isDigit (elemOr parts 1)
                  in case mode of
                       FixedMode \<Rightarrow>
                         ParsedFixed (makeFixed (if isNegative then Neg else Pos) intDigits decDigits)
                     | NumberMode \<Rightarrow>
                         ParsedNumber (signPrefix isNegative @ intDigits
                                       @ (if decDigits \<noteq> [] then ''.'' @ decDigits else [])))))"

text \<open>
  The entry point reads its argument through \<open>String(str)\<close>. Its TypeScript signature
  admits text, numbers and null only; an object would be read through its \<open>toString()\<close>.
\<close>

fun parseIdr :: "jsvalue \<Rightarrow> ParseMode \<Rightarrow> parsed" where
  "parseIdr Null mode = ParsedNull"
| "parseIdr (Str s) mode = (if s = [] then ParsedNull else parseText mode s)"
| "parseIdr (Num s) mode = parseText mode s"
| "parseIdr (FixedV fx) mode = (let s = toString fx in if s = [] then ParsedNull else parseText mode s)"

section \<open>Notions used in the statements\<close>

text \<open>A digit string without superfluous leading zeros.\<close>

definition canonical :: "string \<Rightarrow> bool" where
  "canonical s \<longleftrightarrow> list_all isDigit s \<and> s \<noteq> [] \<and> (s = ''0'' \<or> hd s \<noteq> CHR ''0'')"

text \<open>The normalisation \<open>s.replace(/^0+(?!$)/, "") || "0"\<close> of \<open>groupThousandsStr\<close> and \<open>makeFixed\<close>.\<close>

abbreviation normal :: "string \<Rightarrow> string" where
  "normal s \<equiv> orElse (stripLeadingZeros s) ''0''"

text \<open>The first line of \<open>applyFixedDecimals\<close>: the integer digits it works on.\<close>

abbreviation cleanInt :: "string \<Rightarrow> string" where
  "cleanInt I \<equiv> orElse (filter isDigit (orElse I ''0'')) ''0''"

text \<open>
  Round-half-up of the decimal number \<open>u / 10^k\<close> to \<open>n\<close> decimals, as the integer
  \<open>\<lfloor>u / 10^k * 10^n + 1/2\<rfloor>\<close> of units of \<open>10^-n\<close>.
\<close>

definition roundHalfUp :: "nat \<Rightarrow> nat \<Rightarrow> nat \<Rightarrow> nat" where
  "roundHalfUp u k n = (2 * u * 10 ^ n + 10 ^ k) div (2 * 10 ^ k)"

text \<open>The optional decimal digits handed to \<open>finish\<close> are digits.\<close>

definition decimalsOk :: "string option \<Rightarrow> bool" where
  "decimalsOk D = (case D of None \<Rightarrow> True | Some d \<Rightarrow> list_all isDigit d)"

text \<open>
  The sign flag and the text after the sign, as both entry points compute them from
  \<open>String(value).trim()\<close>.
\<close>

definition signedBody :: "string \<Rightarrow> bool \<times> string" where
  "signedBody text = (let s = trim text in (startsWith s CHR ''-'', if startsWith s CHR ''-'' then drop 1 s else s))"

text \<open>The decimal digits handed to \<open>finish\<close>, with the omitted argument read as no digits.\<close>

definition decimalsText :: "string option \<Rightarrow> string" where
  "decimalsText D = (case D of None \<Rightarrow> [] | Some d \<Rightarrow> d)"

text \<open>The characters \<open>parseIdr\<close> keeps: the class \<open>[0-9.,]\<close>.\<close>

abbreviation kept :: "char \<Rightarrow> bool" where
  "kept c \<equiv> isDigit c \<or> c = CHR ''.'' \<or> c = CHR '',''"

text \<open>
  The parse path in the words of the specification: every dot is dropped, the first comma
  (if any) separates the integer digits from the decimal digits, and a text without any
  digit has no value. Only digits count on either side, so further commas are ignored.
\<close>

definition parseDotFree :: "ParseMode \<Rightarrow> string \<Rightarrow> parsed" where
  "parseDotFree mode text =
     (let (neg, body) = signedBody text;
          nodots = filter (\<lambda>c. c \<noteq> CHR ''.'') body;
          intD = filter isDigit (takeWhile (\<lambda>c. c \<noteq> CHR '','') nodots);
          decD = filter isDigit (drop 1 (dropWhile (\<lambda>c. c \<noteq> CHR '','') nodots))
      in if intD = [] \<and> decD = [] then ParsedNull
         else case mode of
                FixedMode \<Rightarrow> ParsedFixed (makeFixed (if neg then Neg else Pos) (orElse intD ''0'') decD)
              | NumberMode \<Rightarrow>
                  ParsedNumber (signPrefix neg @ orElse intD ''0''
                                @ (if decD \<noteq> [] then ''.'' @ decD else [])))"

section \<open>Evaluation on concrete inputs\<close>

declare splitOn.simps [simp del] groupLoop.simps [simp del] natToString.simps [simp del]

lemmas eval_defs =
  formatText_def classify_def finish_def trim_def startsWith_def isDigit_def isSpace_def
  orElse_def padEnd_def padStart_def indexOf_def elemOr_def digitVal_def digitChar_def
  natOfDigits_def BigInt_def bigintToString_def stripLeadingZeros_def groupThousandsStr_def
  applyFixedDecimals_def keepFirstCommaOnly_def makeFixed_def signPrefix_def toString_def
  thousandPattern_def defaultOptions_def parseText_def Let_def
  splitOn.simps groupLoop.simps natToString.simps

section \<open>Digits and numerals\<close>

lemma isDigit_cases:
  "isDigit c \<longleftrightarrow> c = CHR ''0'' \<or> c = CHR ''1'' \<or> c = CHR ''2'' \<or> c = CHR ''3'' \<or> c = CHR ''4''
     \<or> c = CHR ''5'' \<or> c = CHR ''6'' \<or> c = CHR ''7'' \<or> c = CHR ''8'' \<or> c = CHR ''9''"
  by (auto simp: isDigit_def)

lemma digitChar_isDigit: "d < 10 \<Longrightarrow> isDigit (digitChar d)"
proof -
  assume "d < 10"
  then have "d \<in> {0,1,2,3,4,5,6,7,8,9}" by auto
  then show ?thesis by (auto simp: digitChar_def isDigit_def)
qed

lemma digitVal_digitChar: "d < 10 \<Longrightarrow> digitVal (digitChar d) = d"
proof -
  assume "d < 10"
  then have "d \<in> {0,1,2,3,4,5,6,7,8,9}" by auto
  then show ?thesis by (auto simp: digitChar_def digitVal_def)
qed

lemma digitChar_digitVal: "isDigit c \<Longrightarrow> digitChar (digitVal c) = c"
  by (auto simp: isDigit_cases digitChar_def digitVal_def)

lemma digitVal_less: "isDigit c \<Longrightarrow> digitVal c < 10"
  by (auto simp: isDigit_cases digitVal_def)

lemma digitVal_zero_iff: "isDigit c \<Longrightarrow> digitVal c = 0 \<longleftrightarrow> c = CHR ''0''"
  by (auto simp: isDigit_cases digitVal_def)

lemma isDigit_not_special:
  "isDigit c \<Longrightarrow> c \<noteq> CHR ''.'' \<and> c \<noteq> CHR '','' \<and> c \<noteq> CHR ''-'' \<and> \<not> isSpace c"
  by (auto simp: isDigit_cases isSpace_def)

lemma natOfDigits_Nil [simp]: "natOfDigits [] = 0"
  by (simp add: natOfDigits_def)

lemma natOfDigits_snoc [simp]: "natOfDigits (s @ [c]) = 10 * natOfDigits s + digitVal c"
  by (simp add: natOfDigits_def)

lemma natOfDigits_append: "natOfDigits (a @ b) = natOfDigits a * 10 ^ length b + natOfDigits b"
proof (induction b rule: rev_induct)
  case Nil
  then show ?case by simp
next
  case (snoc x xs)
  have "natOfDigits (a @ xs @ [x]) = 10 * natOfDigits (a @ xs) + digitVal x"
    using natOfDigits_snoc [of "a @ xs" x] by simp
  then show ?case using snoc by (simp add: algebra_simps)
qed

lemma natOfDigits_single [simp]: "natOfDigits [c] = digitVal c"
  by (simp add: natOfDigits_def)

lemma natOfDigits_Cons: "natOfDigits (c # s) = digitVal c * 10 ^ length s + natOfDigits s"
  using natOfDigits_append [of "[c]" s] natOfDigits_snoc [of "[]" c] by simp

lemma natOfDigits_less: "list_all isDigit s \<Longrightarrow> natOfDigits s < 10 ^ length s"
proof (induction s rule: rev_induct)
  case Nil
  then show ?case by simp
next
  case (snoc x xs)
  then have "natOfDigits xs < 10 ^ length xs" and "digitVal x < 10"
    by (simp_all add: digitVal_less)
  then have "10 * natOfDigits xs + digitVal x < 10 * 10 ^ length xs" by arith
  then show ?case by simp
qed

lemma natToString_digits: "list_all isDigit (natToString n)"
proof (induction n rule: natToString.induct)
  case (1 n)
  show ?case
  proof (cases "n < 10")
    case True
    then show ?thesis by (simp add: natToString.simps digitChar_isDigit)
  next
    case False
    then have "list_all isDigit (natToString (n div 10))" using 1 by simp
    moreover have "isDigit (digitChar (n mod 10))" by (simp add: digitChar_isDigit)
    ultimately show ?thesis using False by (subst natToString.simps) simp
  qed
qed

lemma natToString_nonempty: "natToString n \<noteq> []"
  by (subst natToString.simps) simp

lemma natOfDigits_natToString: "natOfDigits (natToString n) = n"
proof (induction n rule: natToString.induct)
  case (1 n)
  show ?case
  proof (cases "n < 10")
    case True
    then show ?thesis
      using natOfDigits_snoc [of "[]" "digitChar n"] by (simp add: natToString.simps digitVal_digitChar)
  next
    case False
    then have "natOfDigits (natToString (n div 10)) = n div 10" using 1 by simp
    then show ?thesis using False
      by (subst natToString.simps) (simp add: digitVal_digitChar)
  qed
qed

lemma natToString_hd: "natToString n = ''0'' \<or> hd (natToString n) \<noteq> CHR ''0''"
proof (induction n rule: natToString.induct)
  case (1 n)
  show ?case
  proof (cases "n < 10")
    case True
    then have "n \<in> {0,1,2,3,4,5,6,7,8,9}" by auto
    moreover have "natToString n = [digitChar n]" using True by (subst natToString.simps) simp
    ultimately show ?thesis by (auto simp: digitChar_def)
  next
    case False
    then have ih: "natToString (n div 10) = ''0'' \<or> hd (natToString (n div 10)) \<noteq> CHR ''0''"
      using 1 by simp
    have "natToString (n div 10) \<noteq> ''0''"
    proof
      assume "natToString (n div 10) = ''0''"
      then have "natOfDigits (natToString (n div 10)) = 0"
        using natOfDigits_snoc [of "[]" "CHR ''0''"] by (simp add: digitVal_def)
      then have "n div 10 = 0" by (simp add: natOfDigits_natToString)
      then show False using False by simp
    qed
    then have "hd (natToString (n div 10)) \<noteq> CHR ''0''" using ih by simp
    then show ?thesis using False natToString_nonempty [of "n div 10"]
      by (subst (1 2) natToString.simps) simp
  qed
qed

lemma canonical_natToString: "canonical (natToString n)"
  using natToString_hd [of n] by (auto simp: canonical_def natToString_digits natToString_nonempty)

lemma stripLeadingZeros_canonical: "canonical s \<Longrightarrow> stripLeadingZeros s = s"
  by (cases s) (auto simp: canonical_def stripLeadingZeros_def)

lemma dropWhile_zero_digits: "list_all isDigit s \<Longrightarrow> list_all isDigit (dropWhile (\<lambda>c. c = CHR ''0'') s)"
  by (induction s) auto

lemma canonical_normal:
  assumes "list_all isDigit s"
  shows "canonical (orElse (stripLeadingZeros s) ''0'')"
proof (cases "dropWhile (\<lambda>c. c = CHR ''0'') s")
  case Nil
  then show ?thesis
    by (auto simp: canonical_def stripLeadingZeros_def orElse_def isDigit_def)
next
  case (Cons a r)
  then have "a \<noteq> CHR ''0''" using hd_dropWhile [of "\<lambda>c. c = CHR ''0''" s] by auto
  moreover have "list_all isDigit (a # r)" using dropWhile_zero_digits [OF assms] Cons by simp
  ultimately show ?thesis using Cons
    by (auto simp: canonical_def stripLeadingZeros_def orElse_def)
qed

lemma natOfDigits_dropWhile_zero: "natOfDigits (dropWhile (\<lambda>c. c = CHR ''0'') s) = natOfDigits s"
proof (induction s)
  case Nil
  then show ?case by simp
next
  case (Cons a s)
  then show ?case by (simp add: natOfDigits_Cons digitVal_def)
qed

lemma natOfDigits_normal: "natOfDigits (orElse (stripLeadingZeros s) ''0'') = natOfDigits s"
proof -
  define r where "r = dropWhile (\<lambda>c. c = CHR ''0'') s"
  have z: "natOfDigits ''0'' = 0" by (simp add: digitVal_def)
  have eq: "natOfDigits r = natOfDigits s" by (simp add: r_def natOfDigits_dropWhile_zero)
  have "orElse (stripLeadingZeros s) ''0'' = (if r = [] then ''0'' else r)"
    by (simp add: stripLeadingZeros_def orElse_def r_def [symmetric])
  then show ?thesis using z eq by (cases "r = []") auto
qed

lemma natToString_natOfDigits:
  assumes "canonical s"
  shows "natToString (natOfDigits s) = s"
  using assms
proof (induction s rule: rev_induct)
  case Nil
  then show ?case by (simp add: canonical_def)
next
  case (snoc x xs)
  then have dx: "isDigit x" and dxs: "list_all isDigit xs" by (simp_all add: canonical_def)
  show ?case
  proof (cases "xs = []")
    case True
    then show ?thesis using dx
      by (simp add: natToString.simps digitVal_less digitChar_digitVal)
  next
    case False
    then have h: "hd xs \<noteq> CHR ''0''" using snoc.prems by (auto simp: canonical_def)
    then have cxs: "canonical xs" using False dxs by (simp add: canonical_def)
    have "natOfDigits xs \<noteq> 0"
    proof
      assume "natOfDigits xs = 0"
      then have "natToString (natOfDigits xs) = ''0''" by (simp add: natToString.simps digitChar_def)
      then have "xs = ''0''" using snoc.IH [OF cxs] by simp
      then show False using h by simp
    qed
    then have big: "\<not> 10 * natOfDigits xs + digitVal x < 10" by simp
    have "(10 * natOfDigits xs + digitVal x) div 10 = natOfDigits xs"
      and "(10 * natOfDigits xs + digitVal x) mod 10 = digitVal x"
      using digitVal_less [OF dx] by simp_all
    then show ?thesis using big snoc.IH [OF cxs] dx
      by (subst natToString.simps) (simp add: digitChar_digitVal)
  qed
qed

lemma natToString_natOfDigits_normal:
  "list_all isDigit s \<Longrightarrow> natToString (natOfDigits s) = orElse (stripLeadingZeros s) ''0''"
  using natToString_natOfDigits [OF canonical_normal, of s] by (simp add: natOfDigits_normal)

section \<open>The grouping loop\<close>

lemma dropWhile_none: "\<forall>c\<in>set s. \<not> P c \<Longrightarrow> dropWhile P s = s"
  by (cases s) auto

lemma trim_no_space: "\<forall>c\<in>set s. \<not> isSpace c \<Longrightarrow> trim s = s"
proof -
  assume a: "\<forall>c\<in>set s. \<not> isSpace c"
  then have "dropWhile isSpace s = s" by (rule dropWhile_none)
  moreover have "dropWhile isSpace (rev s) = rev s" by (rule dropWhile_none) (use a in simp)
  ultimately show ?thesis by (simp add: trim_def)
qed

lemma take_chunk: "i \<le> length d \<Longrightarrow> take (i - 3) d @ take (i - (i - 3)) (drop (i - 3) d) = take i d"
proof -
  assume "i \<le> length d"
  have "take i d = take ((i - 3) + (i - (i - 3))) d" by simp
  also have "\<dots> = take (i - 3) d @ take (i - (i - 3)) (drop (i - 3) d)" by (rule take_add)
  finally show ?thesis by simp
qed

lemma chunk_digits: "list_all isDigit d \<Longrightarrow> list_all isDigit (take k (drop j d))"
  by (simp add: list_all_iff) (meson in_set_dropD in_set_takeD)

lemma filter_digits_id: "list_all isDigit s \<Longrightarrow> filter isDigit s = s"
  by (induction s) auto

lemma filter_nodot_digits: "list_all isDigit s \<Longrightarrow> filter (\<lambda>c. c \<noteq> CHR ''.'') s = s"
  by (induction s) (auto simp: isDigit_not_special)

lemma groupLoop_filter_dot:
  "list_all isDigit d \<Longrightarrow> i \<le> length d \<Longrightarrow>
   filter (\<lambda>c. c \<noteq> CHR ''.'') (groupLoop d i out) = take i d @ filter (\<lambda>c. c \<noteq> CHR ''.'') out"
proof (induction d i out rule: groupLoop.induct)
  case (1 digits i out)
  show ?case
  proof (cases "i = 0")
    case True
    then show ?thesis by (simp add: groupLoop.simps)
  next
    case False
    define chunk where "chunk = take (i - (i - 3)) (drop (i - 3) digits)"
    define out' where "out' = (if out \<noteq> [] then chunk @ ''.'' @ out else chunk)"
    have step: "groupLoop digits i out = groupLoop digits (i - 3) out'"
      using False by (subst groupLoop.simps) (simp add: Let_def chunk_def out'_def)
    have cd: "filter (\<lambda>c. c \<noteq> CHR ''.'') chunk = chunk"
      using chunk_digits [OF "1.prems"(1)] by (simp add: chunk_def filter_nodot_digits)
    have "filter (\<lambda>c. c \<noteq> CHR ''.'') (groupLoop digits (i - 3) out')
          = take (i - 3) digits @ filter (\<lambda>c. c \<noteq> CHR ''.'') out'"
      unfolding out'_def chunk_def
      by (rule "1.IH" [OF False refl refl]) (use "1.prems" in simp_all)
    also have "filter (\<lambda>c. c \<noteq> CHR ''.'') out' = chunk @ filter (\<lambda>c. c \<noteq> CHR ''.'') out"
      using cd by (simp add: out'_def)
    also have "take (i - 3) digits @ chunk @ filter (\<lambda>c. c \<noteq> CHR ''.'') out
          = take i digits @ filter (\<lambda>c. c \<noteq> CHR ''.'') out"
      using take_chunk [OF "1.prems"(2)] by (simp add: chunk_def)
    finally show ?thesis using step by simp
  qed
qed

lemma groupLoop_set:
  "set (groupLoop d i out) \<subseteq> set d \<union> {CHR ''.''} \<union> set out"
proof (induction d i out rule: groupLoop.induct)
  case (1 digits i out)
  show ?case
  proof (cases "i = 0")
    case True
    then show ?thesis by (subst groupLoop.simps) auto
  next
    case False
    define chunk where "chunk = take (i - (i - 3)) (drop (i - 3) digits)"
    define out' where "out' = (if out \<noteq> [] then chunk @ ''.'' @ out else chunk)"
    have step: "groupLoop digits i out = groupLoop digits (i - 3) out'"
      using False by (subst groupLoop.simps) (simp add: Let_def chunk_def out'_def)
    have "set chunk \<subseteq> set digits"
      unfolding chunk_def by (meson in_set_dropD in_set_takeD subsetI)
    then have "set out' \<subseteq> set digits \<union> {CHR ''.''} \<union> set out" by (auto simp: out'_def)
    moreover have "set (groupLoop digits (i - 3) out') \<subseteq> set digits \<union> {CHR ''.''} \<union> set out'"
      unfolding out'_def chunk_def by (rule "1.IH" [OF False refl refl])
    ultimately show ?thesis using step by auto
  qed
qed

lemma groupLoop_nonempty: "0 < i \<Longrightarrow> i \<le> length d \<Longrightarrow> groupLoop d i out \<noteq> []"
proof (induction d i out rule: groupLoop.induct)
  case (1 digits i out)
  define chunk where "chunk = take (i - (i - 3)) (drop (i - 3) digits)"
  define out' where "out' = (if out \<noteq> [] then chunk @ ''.'' @ out else chunk)"
  have step: "groupLoop digits i out = groupLoop digits (i - 3) out'"
    using "1.prems" by (subst groupLoop.simps) (simp add: Let_def chunk_def out'_def)
  have "i - 3 < i" "i - 3 < length digits" using "1.prems" by arith+
  then have "chunk \<noteq> []" by (simp add: chunk_def)
  then have ne: "out' \<noteq> []" by (simp add: out'_def)
  show ?case
  proof (cases "i - 3 = 0")
    case True
    then show ?thesis using step ne by (simp add: groupLoop.simps)
  next
    case False
    have "groupLoop digits (i - 3) out' \<noteq> []"
      unfolding out'_def chunk_def
      by (rule "1.IH" [OF _ refl refl]) (use "1.prems" False in simp_all)
    then show ?thesis using step by simp
  qed
qed

lemma dotGroups_chunk:
  "length chunk = 3 \<Longrightarrow> list_all isDigit chunk \<Longrightarrow> rest = [] \<or> dotGroups rest \<Longrightarrow>
   dotGroups (CHR ''.'' # chunk @ rest)"
proof -
  assume a: "length chunk = 3" "list_all isDigit chunk" "rest = [] \<or> dotGroups rest"
  then obtain x y z where "chunk = [x, y, z]"
    by (cases chunk; cases "tl chunk"; cases "tl (tl chunk)") auto
  then show ?thesis using a by auto
qed

lemma thousandPattern_lead:
  assumes "list_all isDigit lead" "rest = [] \<or> hd rest = CHR ''.''"
  shows "thousandPattern (lead @ rest) \<longleftrightarrow> 1 \<le> length lead \<and> length lead \<le> 3 \<and> dotGroups rest"
proof -
  have nd: "rest \<noteq> [] \<Longrightarrow> \<not> isDigit (hd rest)"
    using assms(2) by (auto simp: isDigit_def)
  have "takeWhile isDigit (lead @ rest) = lead"
    using assms(1) nd by (cases rest) (auto simp: list_all_iff takeWhile_append2 intro: takeWhile_eq_all_conv[THEN iffD2])
  moreover have "dropWhile isDigit (lead @ rest) = rest"
    using assms(1) nd by (cases rest) (auto simp: list_all_iff dropWhile_append2)
  ultimately show ?thesis by (simp add: thousandPattern_def)
qed

lemma groupLoop_pattern:
  "list_all isDigit d \<Longrightarrow> 0 < i \<Longrightarrow> i \<le> length d \<Longrightarrow> out = [] \<or> dotGroups (CHR ''.'' # out) \<Longrightarrow>
   thousandPattern (groupLoop d i out) \<longleftrightarrow> 3 < i \<or> out \<noteq> []"
proof (induction d i out rule: groupLoop.induct)
  case (1 digits i out)
  define chunk where "chunk = take (i - (i - 3)) (drop (i - 3) digits)"
  define out' where "out' = (if out \<noteq> [] then chunk @ ''.'' @ out else chunk)"
  have step: "groupLoop digits i out = groupLoop digits (i - 3) out'"
    using "1.prems" by (subst groupLoop.simps) (simp add: Let_def chunk_def out'_def)
  have cdig: "list_all isDigit chunk" using chunk_digits [OF "1.prems"(1)] by (simp add: chunk_def)
  have tail: "out' = chunk @ (if out = [] then [] else CHR ''.'' # out)" by (simp add: out'_def)
  show ?case
  proof (cases "i \<le> 3")
    case True
    then have "groupLoop digits i out = out'" using step by (simp add: groupLoop.simps)
    moreover have "length chunk = i" using True "1.prems" by (simp add: chunk_def)
    ultimately show ?thesis
      using thousandPattern_lead [OF cdig, of "if out = [] then [] else CHR ''.'' # out"]
        True "1.prems" tail by auto
  next
    case False
    then have len: "length chunk = 3" using "1.prems" by (simp add: chunk_def)
    have "dotGroups (CHR ''.'' # out')"
      using dotGroups_chunk [OF len cdig, of "if out = [] then [] else CHR ''.'' # out"] "1.prems"(4) tail
      by auto
    moreover have "out' \<noteq> []" using len tail by auto
    ultimately have dg: "out' = [] \<or> dotGroups (CHR ''.'' # out')" and ne: "out' \<noteq> []" by simp_all
    have "thousandPattern (groupLoop digits (i - 3) out') \<longleftrightarrow> 3 < i - 3 \<or> out' \<noteq> []"
      using dg unfolding out'_def chunk_def
      by (intro "1.IH" [OF _ refl refl]) (use "1.prems" False in simp_all)
    then show ?thesis using step False ne by simp
  qed
qed

section \<open>Grouping, splitting and the classification of grouped text\<close>

lemma normal_digits: "list_all isDigit s \<Longrightarrow> list_all isDigit (normal s)"
  using canonical_normal [of s] by (simp add: canonical_def)

lemma normal_nonempty: "normal s \<noteq> []"
  by (simp add: orElse_def)

lemma normal_idem: "list_all isDigit s \<Longrightarrow> normal (normal s) = normal s"
  using stripLeadingZeros_canonical [OF canonical_normal, of s] by (simp add: orElse_def)

lemma group_set: "list_all isDigit s \<Longrightarrow> c \<in> set (groupThousandsStr s) \<Longrightarrow> isDigit c \<or> c = CHR ''.''"
proof -
  assume d: "list_all isDigit s" and c: "c \<in> set (groupThousandsStr s)"
  have "set (groupThousandsStr s) \<subseteq> set (normal s) \<union> {CHR ''.''} \<union> set []"
    unfolding groupThousandsStr_def Let_def by (rule groupLoop_set)
  then have "c \<in> set (normal s) \<or> c = CHR ''.''" using c by auto
  then show ?thesis using normal_digits [OF d] by (auto simp: list_all_iff)
qed

lemma group_filter_dot:
  "list_all isDigit s \<Longrightarrow> filter (\<lambda>c. c \<noteq> CHR ''.'') (groupThousandsStr s) = normal s"
  using groupLoop_filter_dot [OF normal_digits, of s "length (normal s)" "[]"]
  by (simp add: groupThousandsStr_def Let_def)

lemma group_filter_digit:
  assumes "list_all isDigit s"
  shows "filter isDigit (groupThousandsStr s) = normal s"
proof -
  have "filter isDigit (groupThousandsStr s) = filter (\<lambda>c. c \<noteq> CHR ''.'') (groupThousandsStr s)"
    by (rule filter_cong [OF refl]) (use group_set [OF assms] isDigit_not_special in blast)
  then show ?thesis by (simp add: group_filter_dot [OF assms])
qed

lemma group_nonempty: "groupThousandsStr s \<noteq> []"
  using groupLoop_nonempty [of "length (normal s)" "normal s" "[]"] normal_nonempty [of s]
  by (simp add: groupThousandsStr_def Let_def)

lemma group_pattern:
  "list_all isDigit s \<Longrightarrow> thousandPattern (groupThousandsStr s) \<longleftrightarrow> 3 < length (normal s)"
  using groupLoop_pattern [OF normal_digits, of s "length (normal s)" "[]"] normal_nonempty [of s]
  by (simp add: groupThousandsStr_def Let_def)

lemma group_short: "length (normal s) \<le> 3 \<Longrightarrow> groupThousandsStr s = normal s"
proof -
  assume a: "length (normal s) \<le> 3"
  have "groupLoop (normal s) (length (normal s)) [] = groupLoop (normal s) (length (normal s) - 3) (normal s)"
    using normal_nonempty [of s] a by (subst groupLoop.simps) (simp add: Let_def)
  also have "\<dots> = normal s" using a by (subst groupLoop.simps) simp
  finally show ?thesis by (simp add: groupThousandsStr_def Let_def)
qed

lemma dotGroups_hd: "dotGroups r \<Longrightarrow> CHR ''.'' \<in> set r"
  by (induction r rule: dotGroups.induct) auto

lemma thousandPattern_has_dot: "thousandPattern s \<Longrightarrow> CHR ''.'' \<in> set s"
proof -
  assume "thousandPattern s"
  then have "CHR ''.'' \<in> set (dropWhile isDigit s)" by (simp add: thousandPattern_def Let_def dotGroups_hd)
  then show ?thesis by (rule set_mp [OF set_dropWhileD [THEN subsetI], rotated]) 
qed

lemma group_dot:
  assumes "list_all isDigit s"
  shows "CHR ''.'' \<in> set (groupThousandsStr s) \<longleftrightarrow> 3 < length (normal s)"
proof
  assume "CHR ''.'' \<in> set (groupThousandsStr s)"
  show "3 < length (normal s)"
  proof (rule ccontr)
    assume "\<not> 3 < length (normal s)"
    then have "groupThousandsStr s = normal s" by (simp add: group_short)
    then have "CHR ''.'' \<in> set (normal s)" using \<open>CHR ''.'' \<in> set (groupThousandsStr s)\<close> by simp
    then show False using normal_digits [OF assms] isDigit_not_special by (auto simp: list_all_iff)
  qed
next
  assume "3 < length (normal s)"
  then show "CHR ''.'' \<in> set (groupThousandsStr s)"
    using group_pattern [OF assms] thousandPattern_has_dot by blast
qed

lemma group_normal: "list_all isDigit s \<Longrightarrow> groupThousandsStr (normal s) = groupThousandsStr s"
  by (simp add: groupThousandsStr_def normal_idem)

lemma group_no_comma: "list_all isDigit s \<Longrightarrow> CHR '','' \<notin> set (groupThousandsStr s)"
  using group_set [of s "CHR '',''"] by (auto simp: isDigit_def)

lemma group_no_minus: "list_all isDigit s \<Longrightarrow> CHR ''-'' \<notin> set (groupThousandsStr s)"
  using group_set [of s "CHR ''-''"] by (auto simp: isDigit_def)

lemma group_no_space: "list_all isDigit s \<Longrightarrow> c \<in> set (groupThousandsStr s) \<Longrightarrow> \<not> isSpace c"
proof -
  assume "list_all isDigit s" "c \<in> set (groupThousandsStr s)"
  then have "isDigit c \<or> c = CHR ''.''" by (rule group_set)
  moreover have "\<not> isSpace CHR ''.''" by (simp add: isSpace_def)
  ultimately show ?thesis using isDigit_not_special [of c] by blast
qed

lemma takeWhile_until: "c \<notin> set a \<Longrightarrow> takeWhile (\<lambda>x. x \<noteq> c) (a @ c # b) = a"
  by (induction a) auto

lemma dropWhile_until: "c \<notin> set a \<Longrightarrow> dropWhile (\<lambda>x. x \<noteq> c) (a @ c # b) = c # b"
  by (induction a) auto

lemma splitOn_none: "c \<notin> set s \<Longrightarrow> splitOn c s = [s]"
  by (subst splitOn.simps) simp

lemma splitOn_first: "c \<notin> set a \<Longrightarrow> splitOn c (a @ c # b) = a # splitOn c b"
proof -
  assume a: "c \<notin> set a"
  show ?thesis
    by (subst splitOn.simps) (simp add: takeWhile_until [OF a] dropWhile_until [OF a])
qed

lemma keepFirstCommaOnly_one:
  "CHR '','' \<notin> set a \<Longrightarrow> keepFirstCommaOnly (a @ CHR '','' # b) = a @ CHR '','' # filter (\<lambda>c. c \<noteq> CHR '','') b"
proof -
  assume a: "CHR '','' \<notin> set a"
  have "takeWhile (\<lambda>x. x \<noteq> CHR '','') (a @ CHR '','' # b) = a"
    by (rule takeWhile_until [OF a])
  then have "indexOf CHR '','' (a @ CHR '','' # b) = Some (length a)" by (simp add: indexOf_def)
  then show ?thesis by (simp add: keepFirstCommaOnly_def)
qed

lemma digits_no_comma: "list_all isDigit s \<Longrightarrow> CHR '','' \<notin> set s"
  using isDigit_not_special by (auto simp: list_all_iff)

lemma digits_no_dot: "list_all isDigit s \<Longrightarrow> CHR ''.'' \<notin> set s"
  using isDigit_not_special by (auto simp: list_all_iff)

lemma filter_nocomma_digits: "list_all isDigit s \<Longrightarrow> filter (\<lambda>c. c \<noteq> CHR '','') s = s"
  by (induction s) (auto simp: isDigit_not_special)

lemma filter_digit_or_comma:
  "filter (\<lambda>c. isDigit c \<or> c = CHR '','') (a @ CHR '','' # b)
     = filter (\<lambda>c. isDigit c \<or> c = CHR '','') a @ CHR '','' # filter (\<lambda>c. isDigit c \<or> c = CHR '','') b"
  by simp

lemma classify_comma:
  assumes i: "list_all isDigit i" and d: "list_all isDigit dd"
  shows "classify (groupThousandsStr i @ CHR '','' # dd) = (normal i, Some dd)"
proof -
  have f1: "filter (\<lambda>c. isDigit c \<or> c = CHR '','') (groupThousandsStr i) = normal i"
  proof -
    have "filter (\<lambda>c. isDigit c \<or> c = CHR '','') (groupThousandsStr i) = filter isDigit (groupThousandsStr i)"
      by (rule filter_cong [OF refl]) (use group_no_comma [OF i] in auto)
    then show ?thesis by (simp add: group_filter_digit [OF i])
  qed
  have f2: "filter (\<lambda>c. isDigit c \<or> c = CHR '','') dd = dd"
    using d by (induction dd) auto
  have only: "filter (\<lambda>c. isDigit c \<or> c = CHR '','') (groupThousandsStr i @ CHR '','' # dd) = normal i @ CHR '','' # dd"
    by (simp add: f1 f2)
  have nc: "CHR '','' \<notin> set (normal i)" by (rule digits_no_comma [OF normal_digits [OF i]])
  have raw: "keepFirstCommaOnly (normal i @ CHR '','' # dd) = normal i @ CHR '','' # dd"
    by (simp add: keepFirstCommaOnly_one [OF nc] filter_nocomma_digits [OF d])
  have parts: "splitOn CHR '','' (normal i @ CHR '','' # dd) = [normal i, dd]"
    by (simp add: splitOn_first [OF nc] splitOn_none [OF digits_no_comma [OF d]])
  have c: "CHR '','' \<in> set (groupThousandsStr i @ CHR '','' # dd)" by simp
  have e: "elemOr [normal i, dd] 0 = normal i" "elemOr [normal i, dd] 1 = dd" by (simp_all add: elemOr_def)
  have o: "orElse (normal i) ''0'' = normal i" by (simp add: orElse_def [of "normal i"] normal_nonempty)
  show ?thesis
    by (simp only: classify_def Let_def c if_True only raw parts e o
        filter_digits_id [OF normal_digits [OF i]] filter_digits_id [OF d])
qed

lemma classify_plain:
  assumes i: "list_all isDigit i"
  shows "classify (groupThousandsStr i) = (normal i, None)"
proof (cases "3 < length (normal i)")
  case True
  have ns: "filter (\<lambda>c. \<not> isSpace c) (groupThousandsStr i) = groupThousandsStr i"
    using group_no_space [OF i] by (simp add: filter_id_conv)
  show ?thesis
    using True group_no_comma [OF i] group_dot [OF i] group_pattern [OF i]
    by (simp add: classify_def ns Let_def group_filter_dot [OF i] orElse_def [of "normal i"] normal_nonempty)
next
  case False
  then show ?thesis
    using group_no_comma [OF i] group_dot [OF i]
    by (simp add: classify_def group_filter_digit [OF i] orElse_def [of "normal i"] normal_nonempty)
qed

section \<open>Padding and the arithmetic of rounding\<close>

lemma bigintToString_int: "bigintToString (int n) = natToString n"
  by (simp add: bigintToString_def)

lemma bigintToString_BigInt_plus: "bigintToString (BigInt s + int c) = natToString (natOfDigits s + c)"
  using bigintToString_int [of "natOfDigits s + c"] by (simp add: BigInt_def)

lemma cleanI_wf: "list_all isDigit (orElse (filter isDigit x) ''0'') \<and> orElse (filter isDigit x) ''0'' \<noteq> []"
  by (simp add: orElse_def list_all_iff isDigit_def)

lemma natOfDigits_zeros: "natOfDigits (replicate k CHR ''0'') = 0"
  by (induction k) (simp_all add: natOfDigits_Cons digitVal_def)

lemma natOfDigits_padStart: "natOfDigits (padStart n CHR ''0'' s) = natOfDigits s"
  by (simp add: padStart_def natOfDigits_append natOfDigits_zeros)

lemma natOfDigits_padEnd: "natOfDigits (padEnd n CHR ''0'' s) = natOfDigits s * 10 ^ (n - length s)"
  by (simp add: padEnd_def natOfDigits_append natOfDigits_zeros)

lemma zeros_digits: "list_all isDigit (replicate k CHR ''0'')"
  by (induction k) (simp_all add: isDigit_def)

lemma padStart_digits: "list_all isDigit s \<Longrightarrow> list_all isDigit (padStart n CHR ''0'' s)"
  by (simp add: padStart_def zeros_digits)

lemma padEnd_digits: "list_all isDigit s \<Longrightarrow> list_all isDigit (padEnd n CHR ''0'' s)"
  by (simp add: padEnd_def zeros_digits)

lemma length_padStart: "length (padStart n c s) = max n (length s)"
  by (simp add: padStart_def)

lemma length_padEnd: "length (padEnd n c s) = max n (length s)"
  by (simp add: padEnd_def)

lemma half_up_split:
  fixes a r m :: nat
  assumes "r < 10 ^ m"
  shows "(2 * (a * 10 ^ m + r) + 10 ^ m) div (2 * 10 ^ m) = a + (if 10 ^ m \<le> 2 * r then 1 else 0)"
proof -
  define p :: nat where "p = 10 ^ m"
  have pp: "0 < p" by (simp add: p_def)
  have r: "r < p" using assms by (simp add: p_def)
  have eq: "(2 * (a * p + r) + p) = a * (2 * p) + (2 * r + p)" by (simp add: algebra_simps)
  have ne: "2 * p \<noteq> 0" using pp by simp
  have "(2 * (a * p + r) + p) div (2 * p) = a + (2 * r + p) div (2 * p)"
    by (simp only: eq div_mult_self3 [OF ne])
  moreover have "(2 * r + p) div (2 * p) = (if p \<le> 2 * r then 1 else 0)"
  proof (cases "p \<le> 2 * r")
    case True
    then have "2 * p \<le> 2 * r + p" "2 * r + p < 2 * (2 * p)" using r by simp_all
    then have "(2 * r + p) div (2 * p) = 1"
      by (intro div_nat_eqI) simp_all
    then show ?thesis using True by simp
  next
    case False
    then have "2 * r + p < 2 * p" by simp
    then show ?thesis using False by simp
  qed
  ultimately show ?thesis by (simp add: p_def)
qed

lemma first_digit_half:
  assumes "isDigit c" "list_all isDigit t"
  shows "10 ^ length (c # t) \<le> 2 * natOfDigits (c # t) \<longleftrightarrow> 5 \<le> digitVal c"
proof -
  define q :: nat where "q = 10 ^ length t"
  have t: "natOfDigits t < q" using natOfDigits_less [OF assms(2)] by (simp add: q_def)
  define x where "x = digitVal c * q"
  have v: "natOfDigits (c # t) = x + natOfDigits t" by (simp add: natOfDigits_Cons q_def x_def)
  have l: "(10::nat) ^ length (c # t) = 10 * q" by (simp add: q_def)
  show ?thesis
  proof (cases "5 \<le> digitVal c")
    case True
    then have "5 * q \<le> x" by (simp add: x_def)
    then have "10 * q \<le> 2 * (x + natOfDigits t)" by arith
    then show ?thesis using True by (simp only: v l)
  next
    case False
    then have "digitVal c \<le> 4" by simp
    then have "x \<le> 4 * q" by (simp add: x_def)
    then have "2 * (x + natOfDigits t) < 10 * q" using t by arith
    then have "\<not> 10 * q \<le> 2 * (x + natOfDigits t)" by simp
    then show ?thesis using False by (simp only: v l)
  qed
qed

section \<open>applyFixedDecimals\<close>

lemma cleanInt_digits: "list_all isDigit (cleanInt I)" and cleanInt_nonempty: "cleanInt I \<noteq> []"
  using cleanI_wf [of "orElse I ''0''"] by simp_all

lemma cleanInt_id: "list_all isDigit I \<Longrightarrow> I \<noteq> [] \<Longrightarrow> cleanInt I = I"
  by (simp add: orElse_def filter_digits_id)

lemma filter_isDigit_digits: "list_all isDigit (filter isDigit D)"
  by (simp add: list_all_iff)

lemma div_cancel_pow: "((x::nat) * 10 ^ k) div (y * 10 ^ k) = x div y"
  by (rule div_mult_mult2) simp

lemma roundHalfUp_exact: "roundHalfUp u k k = u"
proof -
  have e: "2 * u * 10 ^ k + 10 ^ k = (2 * u + 1) * 10 ^ k" by (simp add: algebra_simps)
  have "roundHalfUp u k k = ((2 * u + 1) * 10 ^ k) div (2 * 10 ^ k)"
    by (simp only: roundHalfUp_def e)
  also have "\<dots> = (2 * u + 1) div 2" by (rule div_cancel_pow)
  finally show ?thesis by simp
qed

lemma roundHalfUp_pad: "k \<le> n \<Longrightarrow> roundHalfUp u k n = u * 10 ^ (n - k)"
proof -
  assume kn: "k \<le> n"
  have p: "(10::nat) ^ n = 10 ^ (n - k) * 10 ^ k" using kn by (simp flip: power_add)
  have e: "2 * u * 10 ^ n + 10 ^ k = (2 * (u * 10 ^ (n - k)) + 1) * 10 ^ k"
    by (simp only: p) (simp add: algebra_simps)
  have "roundHalfUp u k n = ((2 * (u * 10 ^ (n - k)) + 1) * 10 ^ k) div (2 * 10 ^ k)"
    by (simp only: roundHalfUp_def e)
  also have "\<dots> = (2 * (u * 10 ^ (n - k)) + 1) div 2" by (rule div_cancel_pow)
  finally show ?thesis by simp
qed

lemma roundHalfUp_cut:
  assumes "list_all isDigit (c # t)"
  shows "roundHalfUp (natOfDigits (a @ c # t)) (n + length (c # t)) n
           = natOfDigits a + (if 5 \<le> digitVal c then 1 else 0)"
proof -
  define m where "m = length (c # t)"
  define r where "r = natOfDigits (c # t)"
  have r: "r < 10 ^ m" using natOfDigits_less [OF assms] by (simp add: r_def m_def)
  have u: "natOfDigits (a @ c # t) = natOfDigits a * 10 ^ m + r"
    by (simp add: natOfDigits_append r_def m_def)
  have "2 * (natOfDigits a * 10 ^ m + r) * 10 ^ n + 10 ^ (n + m)
          = (2 * (natOfDigits a * 10 ^ m + r) + 10 ^ m) * 10 ^ n"
    by (simp add: algebra_simps power_add)
  moreover have "2 * 10 ^ (n + m) = (2 * 10 ^ m) * (10::nat) ^ n" by (simp add: power_add)
  ultimately have "roundHalfUp (natOfDigits (a @ c # t)) (n + m) n
      = ((2 * (natOfDigits a * 10 ^ m + r) + 10 ^ m) * 10 ^ n) div ((2 * 10 ^ m) * 10 ^ n)"
    by (simp only: roundHalfUp_def u)
  also have "\<dots> = (2 * (natOfDigits a * 10 ^ m + r) + 10 ^ m) div (2 * 10 ^ m)"
    by (rule div_cancel_pow)
  also have "\<dots> = natOfDigits a + (if 10 ^ m \<le> 2 * r then 1 else 0)"
    by (rule half_up_split [OF r])
  also have "(10 ^ m \<le> 2 * r) = (5 \<le> digitVal c)"
    using first_digit_half [of c t] assms by (simp add: m_def r_def)
  finally show ?thesis by (simp add: m_def)
qed

lemma afd_nonpositive:
  "n \<le> 0 \<Longrightarrow>
   applyFixedDecimals I D n =
     (natToString (natOfDigits (cleanInt I)
        + (case filter isDigit D of [] \<Rightarrow> 0 | c # _ \<Rightarrow> if 5 \<le> digitVal c then 1 else 0)), [])"
proof -
  assume n: "n \<le> 0"
  have "bigintToString (BigInt (cleanInt I) + (case filter isDigit D of [] \<Rightarrow> 0 | c # _ \<Rightarrow> if 5 \<le> digitVal c then 1 else 0))
      = natToString (natOfDigits (cleanInt I) + (case filter isDigit D of [] \<Rightarrow> 0 | c # _ \<Rightarrow> if 5 \<le> digitVal c then 1 else 0))"
    using bigintToString_BigInt_plus [of "cleanInt I" 0] bigintToString_BigInt_plus [of "cleanInt I" 1]
    by (simp split: list.split)
  then show ?thesis using n by (simp add: applyFixedDecimals_def Let_def)
qed

lemma afd_exact:
  "0 < n \<Longrightarrow> length (filter isDigit D) = nat n \<Longrightarrow>
   applyFixedDecimals I D n = (cleanInt I, filter isDigit D)"
  by (simp add: applyFixedDecimals_def Let_def)

lemma afd_pad:
  "0 < n \<Longrightarrow> length (filter isDigit D) < nat n \<Longrightarrow>
   applyFixedDecimals I D n = (cleanInt I, padEnd (nat n) CHR ''0'' (filter isDigit D))"
  by (simp add: applyFixedDecimals_def Let_def)

lemma afd_truncate:
  "0 < n \<Longrightarrow> nat n < length (filter isDigit D) \<Longrightarrow> digitVal (filter isDigit D ! nat n) < 5 \<Longrightarrow>
   applyFixedDecimals I D n = (cleanInt I, take (nat n) (filter isDigit D))"
  by (simp add: applyFixedDecimals_def Let_def)

lemma afd_carry:
  assumes "0 < n" "nat n < length (filter isDigit D)" "\<not> digitVal (filter isDigit D ! nat n) < 5"
  shows "applyFixedDecimals I D n =
           (let inc = padStart (length (cleanInt I) + nat n) CHR ''0''
                        (natToString (natOfDigits (cleanInt I @ take (nat n) (filter isDigit D)) + 1))
            in (take (length inc - nat n) inc, drop (length inc - nat n) inc))"
proof -
  define cI where "cI = cleanInt I"
  define cD where "cD = filter isDigit D"
  define inc where "inc = padStart (length cI + nat n) CHR ''0''
                   (natToString (natOfDigits (cI @ take (nat n) cD) + 1))"
  have len: "length (take (nat n) cD) = nat n" using assms(2) by (simp add: cD_def)
  have b: "bigintToString (BigInt (cI @ take (nat n) cD) + 1)
      = natToString (natOfDigits (cI @ take (nat n) cD) + 1)"
    using bigintToString_BigInt_plus [of "cI @ take (nat n) cD" 1] by simp
  have "length cI + nat n \<le> length inc" by (simp add: inc_def length_padStart)
  moreover have "0 < length cI" using cleanInt_nonempty [of I] by (simp add: cI_def)
  ultimately have "nat n < length inc" by arith
  then have "take (length inc - nat n) inc \<noteq> []" by auto
  then have o: "orElse (take (length inc - nat n) inc) ''0'' = take (length inc - nat n) inc"
    by (simp add: orElse_def)
  have c: "(n \<le> 0) = False" "(length cD = nat n) = False" "(length cD < nat n) = False"
    "(digitVal (cD ! nat n) < 5) = False"
    using assms by (simp_all add: cD_def)
  show ?thesis
    unfolding applyFixedDecimals_def Let_def cI_def [symmetric] cD_def [symmetric]
    by (simp only: c if_False b len inc_def [symmetric] o)
qed

lemma afd_correct:
  assumes "applyFixedDecimals I D n = (i, d)"
  shows "list_all isDigit i \<and> i \<noteq> [] \<and> list_all isDigit d \<and> length d = nat n \<and>
         natOfDigits (i @ d)
           = roundHalfUp (natOfDigits (cleanInt I @ filter isDigit D)) (length (filter isDigit D)) (nat n)"
proof -
  define cI where "cI = cleanInt I"
  define cD where "cD = filter isDigit D"
  have cIw: "list_all isDigit cI" "cI \<noteq> []" by (simp_all add: cI_def cleanInt_digits cleanInt_nonempty)
  have cDw: "list_all isDigit cD" by (simp add: cD_def filter_isDigit_digits)
  consider (le0) "n \<le> 0" | (exact) "0 < n" "length cD = nat n" | (pad) "0 < n" "length cD < nat n"
    | (trunc) "0 < n" "nat n < length cD" "digitVal (cD ! nat n) < 5"
    | (carry) "0 < n" "nat n < length cD" "\<not> digitVal (cD ! nat n) < 5"
    by linarith
  then show ?thesis
  proof cases
    case le0
    define carry :: nat where "carry = (case cD of [] \<Rightarrow> 0 | c # _ \<Rightarrow> if 5 \<le> digitVal c then 1 else 0)"
    have id: "i = natToString (natOfDigits cI + carry)" "d = []"
      using assms afd_nonpositive [OF le0, of I D] by (simp_all add: cI_def cD_def carry_def)
    have "roundHalfUp (natOfDigits (cI @ cD)) (length cD) 0 = natOfDigits cI + carry"
    proof (cases cD)
      case Nil
      then show ?thesis by (simp add: roundHalfUp_def carry_def)
    next
      case (Cons c t)
      then show ?thesis
        using roundHalfUp_cut [of c t cI 0] cDw by (simp add: carry_def)
    qed
    then show ?thesis using id le0
      by (simp add: natToString_digits natToString_nonempty natOfDigits_natToString cI_def cD_def)
  next
    case exact
    then have "i = cI" "d = cD" using assms afd_exact [of n D I] by (simp_all add: cI_def cD_def)
    then show ?thesis using exact cIw cDw roundHalfUp_exact [of "natOfDigits (cI @ cD)" "length cD"]
      by (simp add: cI_def cD_def)
  next
    case pad
    then have id: "i = cI" "d = padEnd (nat n) CHR ''0'' cD"
      using assms afd_pad [of n D I] by (simp_all add: cI_def cD_def)
    have "natOfDigits (cI @ padEnd (nat n) CHR ''0'' cD) = natOfDigits (cI @ cD) * 10 ^ (nat n - length cD)"
      using natOfDigits_append [of "cI @ cD" "replicate (nat n - length cD) CHR ''0''"]
      by (simp add: padEnd_def natOfDigits_zeros)
    moreover have "roundHalfUp (natOfDigits (cI @ cD)) (length cD) (nat n) = natOfDigits (cI @ cD) * 10 ^ (nat n - length cD)"
      using pad by (intro roundHalfUp_pad) simp
    ultimately show ?thesis using id pad cIw cDw
      by (simp add: padEnd_digits length_padEnd cI_def cD_def)
  next
    case trunc
    then have id: "i = cI" "d = take (nat n) cD"
      using assms afd_truncate [of n D I] by (simp_all add: cI_def cD_def)
    obtain c t where ct: "drop (nat n) cD = c # t" "c = cD ! nat n"
      using trunc(2) by (metis Cons_nth_drop_Suc)
    have dt: "list_all isDigit (c # t)" using cDw ct(1) by (metis append_take_drop_id list_all_append)
    have dk: "list_all isDigit (take (nat n) cD)" using cDw by (metis append_take_drop_id list_all_append)
    have split: "cI @ cD = (cI @ take (nat n) cD) @ c # t" using ct(1) by (metis append_assoc append_take_drop_id)
    have l: "length cD = nat n + length (c # t)" using ct(1) trunc(2) by (metis length_drop le_add_diff_inverse less_imp_le)
    have "roundHalfUp (natOfDigits (cI @ cD)) (length cD) (nat n) = natOfDigits (cI @ take (nat n) cD)"
      using roundHalfUp_cut [OF dt, of "cI @ take (nat n) cD" "nat n"] trunc(3) ct(2)
      by (simp only: split l) simp
    then show ?thesis using id trunc cIw dk by (simp add: cI_def cD_def)
  next
    case carry
    define inc where "inc = padStart (length cI + nat n) CHR ''0''
                   (natToString (natOfDigits (cI @ take (nat n) cD) + 1))"
    have id: "i = take (length inc - nat n) inc" "d = drop (length inc - nat n) inc"
      using assms afd_carry [of n D I] carry by (simp_all add: cI_def cD_def inc_def Let_def)
    have incd: "list_all isDigit inc" by (simp add: inc_def padStart_digits natToString_digits)
    have "length cI + nat n \<le> length inc" by (simp add: inc_def length_padStart)
    moreover have "0 < length cI" using cIw by simp
    ultimately have ln: "nat n < length inc" by arith
    have v: "natOfDigits inc = natOfDigits (cI @ take (nat n) cD) + 1"
      by (simp add: inc_def natOfDigits_padStart natOfDigits_natToString)
    obtain c t where ct: "drop (nat n) cD = c # t" "c = cD ! nat n"
      using carry(2) by (metis Cons_nth_drop_Suc)
    have dt: "list_all isDigit (c # t)" using cDw ct(1) by (metis append_take_drop_id list_all_append)
    have split: "cI @ cD = (cI @ take (nat n) cD) @ c # t" using ct(1) by (metis append_assoc append_take_drop_id)
    have l: "length cD = nat n + length (c # t)" using ct(1) carry(2) by (metis length_drop le_add_diff_inverse less_imp_le)
    have "roundHalfUp (natOfDigits (cI @ cD)) (length cD) (nat n) = natOfDigits (cI @ take (nat n) cD) + 1"
      using roundHalfUp_cut [OF dt, of "cI @ take (nat n) cD" "nat n"] carry(3) ct(2)
      by (simp only: split l) simp
    moreover have "list_all isDigit i" "list_all isDigit d"
      using incd id by (metis append_take_drop_id list_all_append)+
    moreover have "i \<noteq> []" using ln id by auto
    moreover have "length d = nat n" using ln id by simp
    moreover have "i @ d = inc" using id by simp
    ultimately show ?thesis using v by (simp add: cI_def cD_def)
  qed
qed

section \<open>The output of finish is stable\<close>

lemma dotGroups_chars: "dotGroups r \<Longrightarrow> c \<in> set r \<Longrightarrow> isDigit c \<or> c = CHR ''.''"
  by (induction r rule: dotGroups.induct) auto

lemma thousandPattern_chars:
  assumes "thousandPattern s" "c \<in> set s"
  shows "isDigit c \<or> c = CHR ''.''"
proof -
  have "c \<in> set (takeWhile isDigit s) \<or> c \<in> set (dropWhile isDigit s)"
    using assms(2) by (metis Un_iff set_append takeWhile_dropWhile_id)
  moreover have "dotGroups (dropWhile isDigit s)" using assms(1) by (simp add: thousandPattern_def Let_def)
  ultimately show ?thesis using dotGroups_chars set_takeWhileD by metis
qed

lemma thousandPattern_digits:
  assumes "thousandPattern s"
  shows "list_all isDigit (filter (\<lambda>c. c \<noteq> CHR ''.'') s)"
  using thousandPattern_chars [OF assms] by (auto simp: list_all_iff)

lemma orElse_zero_digits: "list_all isDigit x \<Longrightarrow> list_all isDigit (orElse x ''0'')"
  by (simp add: orElse_def isDigit_def)

lemma orElse_zero_nonempty: "orElse x ''0'' \<noteq> []"
  by (simp add: orElse_def)

lemma classify_wf:
  assumes "classify str = (I, D)"
  shows "list_all isDigit I \<and> I \<noteq> [] \<and> (case D of None \<Rightarrow> True | Some d \<Rightarrow> list_all isDigit d)"
proof -
  consider (comma) "CHR '','' \<in> set str"
    | (thousands) "CHR '','' \<notin> set str" "CHR ''.'' \<in> set str" "thousandPattern (filter (\<lambda>c. \<not> isSpace c) str)"
    | (decimal) "CHR '','' \<notin> set str" "CHR ''.'' \<in> set str" "\<not> thousandPattern (filter (\<lambda>c. \<not> isSpace c) str)"
    | (plain) "CHR '','' \<notin> set str" "CHR ''.'' \<notin> set str"
    by blast
  then show ?thesis
  proof cases
    case comma
    then show ?thesis using assms
      by (auto simp: classify_def Let_def orElse_zero_digits orElse_zero_nonempty filter_isDigit_digits)
  next
    case thousands
    then show ?thesis using assms thousandPattern_digits [OF thousands(3)]
      by (auto simp: classify_def Let_def orElse_zero_digits orElse_zero_nonempty)
  next
    case decimal
    then show ?thesis using assms
      by (auto simp: classify_def Let_def orElse_zero_digits orElse_zero_nonempty filter_isDigit_digits)
  next
    case plain
    then show ?thesis using assms
      by (auto simp: classify_def Let_def orElse_zero_digits orElse_zero_nonempty filter_isDigit_digits)
  qed
qed

lemma padEnd_idem: "padEnd n c (padEnd n c s) = padEnd n c s"
  by (simp add: padEnd_def)

lemma padEnd_nonempty: "s \<noteq> [] \<Longrightarrow> padEnd n c s \<noteq> []"
  by (simp add: padEnd_def)

lemma finish_auto_none:
  "decimals opts = Auto \<Longrightarrow> D = None \<or> D = Some [] \<Longrightarrow> finish opts I D = groupThousandsStr I"
  by (auto simp: finish_def Let_def)

lemma finish_auto_some:
  "decimals opts = Auto \<Longrightarrow> d \<noteq> [] \<Longrightarrow>
   finish opts I (Some d) = groupThousandsStr I @ CHR '','' # (if padZeros opts then padEnd 2 CHR ''0'' d else d)"
  by (simp add: finish_def Let_def)

lemma finish_decimals:
  "decimals opts = Decimals n \<Longrightarrow> applyFixedDecimals I (case D of None \<Rightarrow> [] | Some rd \<Rightarrow> rd) n = (i, d) \<Longrightarrow>
   finish opts I D = (if 0 < n then groupThousandsStr i @ CHR '','' # d else groupThousandsStr i)"
  by (simp add: finish_def Let_def)

lemma group_chars_ok:
  "list_all isDigit s \<Longrightarrow> c \<in> set (groupThousandsStr s) \<Longrightarrow> isDigit c \<or> c = CHR ''.'' \<or> c = CHR '',''"
  using group_set by blast

lemma finish_stable:
  assumes I: "list_all isDigit I" and D: "decimalsOk D"
  shows "finish opts (fst (classify (finish opts I D))) (snd (classify (finish opts I D))) = finish opts I D
         \<and> finish opts I D \<noteq> []
         \<and> (\<forall>c\<in>set (finish opts I D). isDigit c \<or> c = CHR ''.'' \<or> c = CHR '','')"
proof (cases "decimals opts")
  case Auto
  show ?thesis
  proof (cases "D = None \<or> D = Some []")
    case True
    have out: "finish opts I D = groupThousandsStr I" by (rule finish_auto_none [OF Auto True])
    have cl: "classify (groupThousandsStr I) = (normal I, None)" by (rule classify_plain [OF I])
    have "finish opts (normal I) None = groupThousandsStr I"
      using finish_auto_none [OF Auto, of None "normal I"] by (simp add: group_normal [OF I])
    then show ?thesis using group_set [OF I] by (auto simp: out cl group_nonempty)
  next
    case False
    then obtain d where d: "D = Some d" "d \<noteq> []" by (cases D) auto
    define pd where "pd = (if padZeros opts then padEnd 2 CHR ''0'' d else d)"
    have dd: "list_all isDigit d" using D d by (simp add: decimalsOk_def)
    have pdd: "list_all isDigit pd" using dd by (simp add: pd_def padEnd_digits)
    have pdn: "pd \<noteq> []" using d(2) by (simp add: pd_def padEnd_nonempty)
    have pdi: "(if padZeros opts then padEnd 2 CHR ''0'' pd else pd) = pd" by (simp add: pd_def padEnd_idem)
    have out: "finish opts I D = groupThousandsStr I @ CHR '','' # pd"
      using finish_auto_some [OF Auto d(2), of I] by (simp add: d(1) pd_def)
    have cl: "classify (groupThousandsStr I @ CHR '','' # pd) = (normal I, Some pd)"
      by (rule classify_comma [OF I pdd])
    have "finish opts (normal I) (Some pd) = groupThousandsStr I @ CHR '','' # pd"
      using finish_auto_some [OF Auto pdn, of "normal I"] by (simp add: group_normal [OF I] pdi)
    moreover have "\<forall>c\<in>set pd. isDigit c" using pdd by (simp add: list_all_iff)
    ultimately show ?thesis using group_set [OF I] by (auto simp: out cl)
  qed
next
  case (Decimals n)
  obtain i d where id: "applyFixedDecimals I (case D of None \<Rightarrow> [] | Some rd \<Rightarrow> rd) n = (i, d)"
    by (cases "applyFixedDecimals I (case D of None \<Rightarrow> [] | Some rd \<Rightarrow> rd) n") auto
  have w: "list_all isDigit i" "i \<noteq> []" "list_all isDigit d" "length d = nat n"
    using afd_correct [OF id] by simp_all
  have ni: "cleanInt (normal i) = normal i"
    by (rule cleanInt_id [OF normal_digits [OF w(1)] normal_nonempty])
  show ?thesis
  proof (cases "0 < n")
    case True
    have out: "finish opts I D = groupThousandsStr i @ CHR '','' # d"
      using finish_decimals [OF Decimals id] True by simp
    have cl: "classify (groupThousandsStr i @ CHR '','' # d) = (normal i, Some d)"
      by (rule classify_comma [OF w(1) w(3)])
    have "applyFixedDecimals (normal i) d n = (normal i, d)"
      using afd_exact [OF True, of d "normal i"] w by (simp add: filter_digits_id ni)
    then have "finish opts (normal i) (Some d) = groupThousandsStr i @ CHR '','' # d"
      using finish_decimals [OF Decimals, of "normal i" "Some d" "normal i" d] True
      by (simp add: group_normal [OF w(1)])
    moreover have "\<forall>c\<in>set d. isDigit c" using w(3) by (simp add: list_all_iff)
    ultimately show ?thesis using group_set [OF w(1)] by (auto simp: out cl)
  next
    case False
    have out: "finish opts I D = groupThousandsStr i"
      using finish_decimals [OF Decimals id] False by simp
    have cl: "classify (groupThousandsStr i) = (normal i, None)" by (rule classify_plain [OF w(1)])
    have "applyFixedDecimals (normal i) [] n = (natToString (natOfDigits (normal i)), [])"
      using afd_nonpositive [of n "normal i" "[]"] False by (simp add: ni)
    also have "natToString (natOfDigits (normal i)) = normal i"
      using natToString_natOfDigits_normal [OF normal_digits [OF w(1)]] by (simp add: normal_idem [OF w(1)])
    finally have "finish opts (normal i) None = groupThousandsStr i"
      using finish_decimals [OF Decimals, of "normal i" None "normal i" "[]"] False
      by (simp add: group_normal [OF w(1)])
    then show ?thesis using group_set [OF w(1)] by (auto simp: out cl group_nonempty)
  qed
qed

lemma formatText_alt:
  "formatText text opts =
     signPrefix (fst (signedBody text))
       @ finish opts (fst (classify (snd (signedBody text)))) (snd (classify (snd (signedBody text))))"
  by (simp add: formatText_def signedBody_def Let_def signPrefix_def split_beta)

lemma signedBody_output:
  assumes "out \<noteq> []" "\<forall>c\<in>set out. isDigit c \<or> c = CHR ''.'' \<or> c = CHR '',''"
  shows "signedBody (signPrefix neg @ out) = (neg, out)"
proof -
  have ns: "\<forall>c\<in>set out. \<not> isSpace c"
    using assms(2) isDigit_not_special by (auto simp: isSpace_def)
  have "\<not> isSpace CHR ''-''" by (simp add: isSpace_def)
  then have "\<forall>c\<in>set (signPrefix neg @ out). \<not> isSpace c" using ns by (auto simp: signPrefix_def)
  then have t: "trim (signPrefix neg @ out) = signPrefix neg @ out" by (rule trim_no_space)
  have "hd out \<noteq> CHR ''-''" using assms isDigit_not_special [of "hd out"] by (cases out) auto
  then have "startsWith (signPrefix neg @ out) CHR ''-'' = neg"
    using assms(1) by (cases out) (auto simp: startsWith_def signPrefix_def)
  then show ?thesis using t by (cases neg) (simp_all add: signedBody_def Let_def signPrefix_def)
qed

lemma formatText_idem: "formatText (formatText text opts) opts = formatText text opts"
proof -
  obtain neg body where sb: "signedBody text = (neg, body)" by (cases "signedBody text") auto
  obtain I D where cl: "classify body = (I, D)" by (cases "classify body") auto
  have I: "list_all isDigit I" and D: "decimalsOk D"
    using classify_wf [OF cl] by (simp_all add: decimalsOk_def)
  define out where "out = finish opts I D"
  have st: "finish opts (fst (classify out)) (snd (classify out)) = out" "out \<noteq> []"
    "\<forall>c\<in>set out. isDigit c \<or> c = CHR ''.'' \<or> c = CHR '',''"
    using finish_stable [OF I D, of opts] by (simp_all add: out_def)
  have f: "formatText text opts = signPrefix neg @ out" by (simp add: formatText_alt sb cl out_def)
  have "signedBody (signPrefix neg @ out) = (neg, out)" by (rule signedBody_output [OF st(2,3)])
  then have "formatText (signPrefix neg @ out) opts = signPrefix neg @ out"
    by (simp add: formatText_alt st(1))
  then show ?thesis by (simp add: f)
qed

lemma formatText_nonempty: "formatText text opts \<noteq> []"
proof -
  obtain I D where cl: "classify (snd (signedBody text)) = (I, D)" by (cases "classify (snd (signedBody text))") auto
  have "list_all isDigit I" "decimalsOk D" using classify_wf [OF cl] by (simp_all add: decimalsOk_def)
  then have "finish opts I D \<noteq> []" using finish_stable by blast
  then show ?thesis by (simp add: formatText_alt cl)
qed

section \<open>Rounding to a fixed number of decimals\<close>

lemma formatText_parts:
  "signedBody text = (neg, body) \<Longrightarrow> classify body = (I, D) \<Longrightarrow>
   formatText text opts = signPrefix neg @ finish opts I D"
  by (simp add: formatText_alt)

lemma padStart_natToString:
  assumes "list_all isDigit d" "d \<noteq> []"
  shows "padStart (length d) CHR ''0'' (natToString (natOfDigits d)) = d"
proof -
  define z where "z = takeWhile (\<lambda>c. c = CHR ''0'') d"
  define r where "r = dropWhile (\<lambda>c. c = CHR ''0'') d"
  have d: "d = z @ r" by (simp add: z_def r_def)
  have z: "z = replicate (length z) CHR ''0''"
    unfolding z_def by (induction d) auto
  have n: "natToString (natOfDigits d) = (if r = [] then ''0'' else r)"
    using natToString_natOfDigits_normal [OF assms(1)] assms(2)
    by (simp add: stripLeadingZeros_def orElse_def r_def [symmetric])
  show ?thesis
  proof (cases "r = []")
    case True
    then have dz: "d = replicate (length d) CHR ''0''" using d z by simp
    have "0 < length d" using assms(2) by simp
    then have "replicate (length d - 1) CHR ''0'' @ ''0'' = replicate (length d) CHR ''0''"
      by (metis Suc_pred' replicate_Suc replicate_append_same)
    then show ?thesis using True n dz by (simp add: padStart_def)
  next
    case False
    have "length d - length r = length z" using d by simp
    then have "padStart (length d) CHR ''0'' r = z @ r" using z by (simp add: padStart_def)
    then show ?thesis using False n d by simp
  qed
qed

lemma natOfDigits_split:
  assumes "list_all isDigit d"
  shows "natOfDigits (i @ d) div 10 ^ length d = natOfDigits i"
    and "natOfDigits (i @ d) mod 10 ^ length d = natOfDigits d"
  using natOfDigits_less [OF assms] by (simp_all add: natOfDigits_append)

lemma group_of_value: "list_all isDigit i \<Longrightarrow> groupThousandsStr (natToString (natOfDigits i)) = groupThousandsStr i"
  by (simp add: natToString_natOfDigits_normal group_normal)

lemma formatText_rounds:
  assumes sb: "signedBody text = (neg, body)" and cl: "classify body = (I, D)"
    and opt: "decimals opts = Decimals n" and n: "0 \<le> n"
  defines "R \<equiv> roundHalfUp (natOfDigits (I @ decimalsText D)) (length (decimalsText D)) (nat n)"
  shows "formatText text opts =
           signPrefix neg @ groupThousandsStr (natToString (R div 10 ^ nat n))
             @ (if n = 0 then [] else CHR '','' # padStart (nat n) CHR ''0'' (natToString (R mod 10 ^ nat n)))"
proof -
  have w: "list_all isDigit I" "I \<noteq> []" "list_all isDigit (decimalsText D)"
    using classify_wf [OF cl] by (auto simp: decimalsText_def split: option.splits)
  obtain i d where id: "applyFixedDecimals I (decimalsText D) n = (i, d)"
    by (cases "applyFixedDecimals I (decimalsText D) n") auto
  have c: "list_all isDigit i" "list_all isDigit d" "length d = nat n" "natOfDigits (i @ d) = R"
    using afd_correct [OF id] w by (simp_all add: R_def cleanInt_id filter_digits_id)
  have f: "formatText text opts = signPrefix neg @ (if 0 < n then groupThousandsStr i @ CHR '','' # d else groupThousandsStr i)"
    using finish_decimals [OF opt, of I D i d] id by (simp add: formatText_parts [OF sb cl] decimalsText_def)
  have iv: "R div 10 ^ nat n = natOfDigits i" and dv: "R mod 10 ^ nat n = natOfDigits d"
    using natOfDigits_split [OF c(2), of i] c(3,4) by simp_all
  have g: "groupThousandsStr (natToString (R div 10 ^ nat n)) = groupThousandsStr i"
    by (simp add: iv group_of_value [OF c(1)])
  show ?thesis
  proof (cases "n = 0")
    case True
    then show ?thesis using f g by simp
  next
    case False
    then have "d \<noteq> []" using c(3) n by auto
    then have "padStart (nat n) CHR ''0'' (natToString (R mod 10 ^ nat n)) = d"
      using padStart_natToString [OF c(2)] c(3) by (simp add: dv)
    then show ?thesis using f g False n by simp
  qed
qed

lemma roundHalfUp_zero:
  assumes "list_all isDigit D"
  shows "roundHalfUp (natOfDigits (I @ D)) (length D) 0
           = natOfDigits I + (case D of [] \<Rightarrow> 0 | c # _ \<Rightarrow> if 5 \<le> digitVal c then 1 else 0)"
proof (cases D)
  case Nil
  then show ?thesis by (simp add: roundHalfUp_def)
next
  case (Cons c t)
  then show ?thesis using roundHalfUp_cut [of c t I 0] assms by simp
qed

section \<open>Sign, body and the dot branch\<close>

lemma set_trim: "set (trim s) \<subseteq> set s"
proof -
  have "set (trim s) = set (dropWhile isSpace (rev (dropWhile isSpace s)))" by (simp add: trim_def)
  also have "\<dots> \<subseteq> set (rev (dropWhile isSpace s))" by (meson set_dropWhileD subsetI)
  also have "\<dots> \<subseteq> set s" using set_dropWhileD by fastforce
  finally show ?thesis .
qed

lemma dropWhile_keeps: "\<not> P c \<Longrightarrow> c \<in> set s \<Longrightarrow> c \<in> set (dropWhile P s)"
  by (induction s) auto

lemma trim_keeps: "\<not> isSpace c \<Longrightarrow> c \<in> set s \<Longrightarrow> c \<in> set (trim s)"
proof -
  assume a: "\<not> isSpace c" "c \<in> set s"
  then have "c \<in> set (rev (dropWhile isSpace s))" by (simp add: dropWhile_keeps)
  then have "c \<in> set (dropWhile isSpace (rev (dropWhile isSpace s)))" using a(1) by (rule dropWhile_keeps [rotated])
  then show ?thesis by (simp add: trim_def)
qed

lemma signedBody_subset: "signedBody text = (neg, body) \<Longrightarrow> set body \<subseteq> set text"
proof -
  assume a: "signedBody text = (neg, body)"
  have "set (drop 1 (trim text)) \<subseteq> set (trim text)" by (rule set_drop_subset)
  then have "set body \<subseteq> set (trim text)" using a by (auto simp: signedBody_def Let_def split: if_splits)
  then show ?thesis using set_trim by blast
qed

lemma signedBody_keeps:
  assumes "signedBody text = (neg, body)" "\<not> isSpace c" "c \<noteq> CHR ''-''"
  shows "c \<in> set body \<longleftrightarrow> c \<in> set text"
proof
  assume "c \<in> set body"
  then show "c \<in> set text" using signedBody_subset [OF assms(1)] by blast
next
  assume "c \<in> set text"
  then have t: "c \<in> set (trim text)" using assms(2) by (simp add: trim_keeps)
  show "c \<in> set body"
  proof (cases "startsWith (trim text) CHR ''-''")
    case True
    then obtain r where r: "trim text = CHR ''-'' # r" by (cases "trim text") (auto simp: startsWith_def)
    then have "body = r" using assms(1) True by (simp add: signedBody_def Let_def startsWith_def)
    then show ?thesis using t r assms(3) by simp
  next
    case False
    then have "body = trim text" using assms(1) by (simp add: signedBody_def Let_def)
    then show ?thesis using t by simp
  qed
qed

lemma formatIdr_Str:
  "text \<noteq> [] \<Longrightarrow> signedBody text = (neg, body) \<Longrightarrow> classify body = (I, D) \<Longrightarrow>
   formatIdr (Str text) opts = signPrefix neg @ finish opts I D"
  by (simp add: formatText_parts)

lemma splitOn_hd: "elemOr (splitOn c s) 0 = takeWhile (\<lambda>x. x \<noteq> c) s"
proof (cases "c \<in> set s")
  case True
  then show ?thesis by (subst splitOn.simps) (simp add: elemOr_def)
next
  case False
  then have tw: "takeWhile (\<lambda>x. x \<noteq> c) s = s" by (auto simp: takeWhile_eq_all_conv)
  show ?thesis unfolding splitOn_none [OF False] tw by (simp add: elemOr_def)
qed

lemma elemOr_take2_0: "elemOr (take 2 (splitOn c s)) 0 = takeWhile (\<lambda>x. x \<noteq> c) s"
proof -
  have "splitOn c s \<noteq> []" by (subst splitOn.simps) simp
  then have "elemOr (take 2 (splitOn c s)) 0 = elemOr (splitOn c s) 0"
    by (cases "splitOn c s") (simp_all add: elemOr_def)
  then show ?thesis by (simp add: splitOn_hd)
qed

lemma elemOr_split_1:
  "c \<in> set s \<Longrightarrow> elemOr (splitOn c s) 1 = takeWhile (\<lambda>x. x \<noteq> c) (tl (dropWhile (\<lambda>x. x \<noteq> c) s))"
proof -
  assume a: "c \<in> set s"
  define rest where "rest = tl (dropWhile (\<lambda>x. x \<noteq> c) s)"
  have sp: "splitOn c s = takeWhile (\<lambda>x. x \<noteq> c) s # splitOn c rest"
    using a by (subst splitOn.simps) (simp add: rest_def)
  have ne: "splitOn c rest \<noteq> []" by (subst splitOn.simps) simp
  have "elemOr (splitOn c s) 1 = elemOr (splitOn c rest) 0"
    using ne by (cases "splitOn c rest") (simp_all add: sp elemOr_def)
  then show ?thesis by (simp add: splitOn_hd rest_def)
qed

lemma elemOr_take2_1:
  "c \<in> set s \<Longrightarrow> elemOr (take 2 (splitOn c s)) 1 = takeWhile (\<lambda>x. x \<noteq> c) (tl (dropWhile (\<lambda>x. x \<noteq> c) s))"
proof -
  assume a: "c \<in> set s"
  define rest where "rest = tl (dropWhile (\<lambda>x. x \<noteq> c) s)"
  have sp: "splitOn c s = takeWhile (\<lambda>x. x \<noteq> c) s # splitOn c rest"
    using a by (subst splitOn.simps) (simp add: rest_def)
  have ne: "splitOn c rest \<noteq> []" by (subst splitOn.simps) simp
  have "elemOr (take 2 (splitOn c s)) 1 = elemOr (splitOn c s) 1"
    using ne by (cases "splitOn c rest") (simp_all add: sp elemOr_def)
  then show ?thesis using elemOr_split_1 [OF a] by simp
qed

lemma classify_thousands:
  assumes "CHR '','' \<notin> set body" "CHR ''.'' \<in> set body" "thousandPattern (filter (\<lambda>c. \<not> isSpace c) body)"
  shows "classify body = (filter (\<lambda>c. c \<noteq> CHR ''.'') (filter (\<lambda>c. \<not> isSpace c) body), None)"
proof -
  define s where "s = filter (\<lambda>c. \<not> isSpace c) body"
  have "takeWhile isDigit s \<noteq> []" using assms(3) by (auto simp: thousandPattern_def Let_def s_def)
  then obtain x where x: "x \<in> set (takeWhile isDigit s)" by (cases "takeWhile isDigit s") auto
  then have "x \<in> set s" "isDigit x" by (auto dest: set_takeWhileD)
  then have "x \<in> set (filter (\<lambda>c. c \<noteq> CHR ''.'') s)" using isDigit_not_special [of x] by simp
  then have "filter (\<lambda>c. c \<noteq> CHR ''.'') s \<noteq> []" by (auto simp: filter_empty_conv)
  then show ?thesis using assms by (simp add: classify_def Let_def s_def [symmetric] orElse_def)
qed

lemma classify_decimal_dot:
  assumes "CHR '','' \<notin> set body" "CHR ''.'' \<in> set body" "\<not> thousandPattern (filter (\<lambda>c. \<not> isSpace c) body)"
  shows "classify body =
           (orElse (filter isDigit (takeWhile (\<lambda>x. x \<noteq> CHR ''.'') (filter (\<lambda>c. \<not> isSpace c) body))) ''0'',
            Some (filter isDigit (takeWhile (\<lambda>x. x \<noteq> CHR ''.'')
                    (tl (dropWhile (\<lambda>x. x \<noteq> CHR ''.'') (filter (\<lambda>c. \<not> isSpace c) body))))))"
proof -
  define s where "s = filter (\<lambda>c. \<not> isSpace c) body"
  have "\<not> isSpace CHR ''.''" by (simp add: isSpace_def)
  then have d: "CHR ''.'' \<in> set s" using assms(2) by (simp add: s_def)
  show ?thesis
    using assms elemOr_take2_1 [OF d] by (simp add: classify_def Let_def s_def [symmetric] elemOr_take2_0)
qed

section \<open>The parse path\<close>

lemma replaceFirst_none: "a \<notin> set s \<Longrightarrow> replaceFirst a b s = s"
  by (induction s) auto

lemma replaceFirst_first: "a \<notin> set s \<Longrightarrow> replaceFirst a b (s @ a # t) = s @ b # t"
  by (induction s) auto

lemma filter_digit_nodot_kept: "filter (\<lambda>c. c \<noteq> CHR ''.'') (filter (\<lambda>c. c \<noteq> CHR '','') (filter kept s)) = filter isDigit s"
  using isDigit_not_special by (induction s) auto

lemma filter_nodot_kept_nocomma:
  "CHR '','' \<notin> set s \<Longrightarrow> filter (\<lambda>c. c \<noteq> CHR ''.'') (filter kept s) = filter isDigit s"
  using isDigit_not_special by (induction s) auto

lemma filter_digit_nodot: "filter isDigit (filter (\<lambda>c. c \<noteq> CHR ''.'') s) = filter isDigit s"
  using isDigit_not_special by (induction s) auto

lemma split_at_comma:
  "CHR '','' \<in> set s \<Longrightarrow> s = takeWhile (\<lambda>c. c \<noteq> CHR '','') s @ CHR '','' # tl (dropWhile (\<lambda>c. c \<noteq> CHR '','') s)"
proof -
  assume a: "CHR '','' \<in> set s"
  then have "dropWhile (\<lambda>c. c \<noteq> CHR '','') s \<noteq> []" by simp
  moreover have "hd (dropWhile (\<lambda>c. c \<noteq> CHR '','') s) = CHR '',''"
    using a hd_dropWhile [of "\<lambda>c. c \<noteq> CHR '',''" s] by auto
  ultimately have "dropWhile (\<lambda>c. c \<noteq> CHR '','') s = CHR '','' # tl (dropWhile (\<lambda>c. c \<noteq> CHR '','') s)"
    by (cases "dropWhile (\<lambda>c. c \<noteq> CHR '','') s") auto
  then show ?thesis by (metis takeWhile_dropWhile_id)
qed

lemma takeWhile_no: "c \<notin> set (takeWhile (\<lambda>x. x \<noteq> c) s)"
  by (auto dest: set_takeWhileD)

lemma normalized_nocomma:
  assumes "CHR '','' \<notin> set body"
  shows "replaceFirst CHR '','' CHR ''.'' (filter (\<lambda>c. c \<noteq> CHR ''.'') (keepFirstCommaOnly (filter kept body)))
           = filter isDigit body"
proof -
  have nc: "CHR '','' \<notin> set (filter kept body)" using assms by simp
  then have k: "keepFirstCommaOnly (filter kept body) = filter kept body"
    by (simp add: keepFirstCommaOnly_def indexOf_def)
  have "CHR '','' \<notin> set (filter isDigit body)" using assms by simp
  then show ?thesis
    unfolding k filter_nodot_kept_nocomma [OF assms] by (rule replaceFirst_none)
qed

lemma normalized_comma:
  assumes "body = a @ CHR '','' # b" "CHR '','' \<notin> set a"
  shows "replaceFirst CHR '','' CHR ''.'' (filter (\<lambda>c. c \<noteq> CHR ''.'') (keepFirstCommaOnly (filter kept body)))
           = filter isDigit a @ CHR ''.'' # filter isDigit b"
proof -
  have s2: "filter kept body = filter kept a @ CHR '','' # filter kept b" by (simp add: assms(1))
  have nc: "CHR '','' \<notin> set (filter kept a)" using assms(2) by simp
  have k: "keepFirstCommaOnly (filter kept body)
             = filter kept a @ CHR '','' # filter (\<lambda>c. c \<noteq> CHR '','') (filter kept b)"
    by (simp only: s2 keepFirstCommaOnly_one [OF nc])
  have "filter (\<lambda>c. c \<noteq> CHR ''.'') (keepFirstCommaOnly (filter kept body))
          = filter isDigit a @ CHR '','' # filter isDigit b"
    unfolding k
    by (simp del: filter_filter split: ParseMode.split add: filter_nodot_kept_nocomma [OF assms(2)] filter_digit_nodot_kept)
  moreover have "CHR '','' \<notin> set (filter isDigit a)" using assms(2) by simp
  ultimately show ?thesis by (simp add: replaceFirst_first)
qed

lemma digits_filter_no_dot: "CHR ''.'' \<notin> set (filter isDigit s)"
  using isDigit_not_special by auto

lemma parse_parts_nocomma:
  assumes "ds = filter isDigit body"
  shows "elemOr (splitOn CHR ''.'' ds) 0 = ds" "elemOr (splitOn CHR ''.'' ds) 1 = []"
  using splitOn_none [of "CHR ''.''" ds] digits_filter_no_dot [of body] assms
  by (simp_all add: elemOr_def)

lemma parse_parts_comma:
  assumes "da = filter isDigit a" "db = filter isDigit b"
  shows "elemOr (splitOn CHR ''.'' (da @ CHR ''.'' # db)) 0 = da"
    and "elemOr (splitOn CHR ''.'' (da @ CHR ''.'' # db)) 1 = db"
proof -
  have "CHR ''.'' \<notin> set da" "CHR ''.'' \<notin> set db" using digits_filter_no_dot assms by simp_all
  then have "splitOn CHR ''.'' (da @ CHR ''.'' # db) = [da, db]"
    by (simp add: splitOn_first splitOn_none)
  then show "elemOr (splitOn CHR ''.'' (da @ CHR ''.'' # db)) 0 = da"
    and "elemOr (splitOn CHR ''.'' (da @ CHR ''.'' # db)) 1 = db"
    by (simp_all add: elemOr_def)
qed

lemma parseText_body:
  "parseText mode text =
     (let (neg, body) = signedBody text;
          s2 = filter kept body
      in if s2 = [] then ParsedNull
         else
           (let normalized = replaceFirst CHR '','' CHR ''.'' (filter (\<lambda>c. c \<noteq> CHR ''.'') (keepFirstCommaOnly s2))
            in if normalized = [] \<or> normalized = ''.'' then ParsedNull
               else
                 (let parts = splitOn CHR ''.'' normalized;
                      intDigits = orElse (filter isDigit (elemOr parts 0)) ''0'';
                      decDigits = filter isDigit (elemOr parts 1)
                  in case mode of
                       FixedMode \<Rightarrow>
                         ParsedFixed (makeFixed (if neg then Neg else Pos) intDigits decDigits)
                     | NumberMode \<Rightarrow>
                         ParsedNumber (signPrefix neg @ intDigits
                                       @ (if decDigits \<noteq> [] then ''.'' @ decDigits else [])))))"
  by (simp add: parseText_def signedBody_def Let_def)

lemma parseText_eq: "parseText mode text = parseDotFree mode text"
proof -
  obtain neg body where sb: "signedBody text = (neg, body)" by (cases "signedBody text") auto
  show ?thesis
  proof (cases "CHR '','' \<in> set body")
    case False
    define ds where "ds = filter isDigit body"
    have n: "replaceFirst CHR '','' CHR ''.'' (filter (\<lambda>c. c \<noteq> CHR ''.'') (keepFirstCommaOnly (filter kept body))) = ds"
      by (simp only: normalized_nocomma [OF False] ds_def)
    have nd: "CHR '','' \<notin> set (filter (\<lambda>c. c \<noteq> CHR ''.'') body)" using False by simp
    have tw: "takeWhile (\<lambda>c. c \<noteq> CHR '','') (filter (\<lambda>c. c \<noteq> CHR ''.'') body) = filter (\<lambda>c. c \<noteq> CHR ''.'') body"
      using nd by (auto simp: takeWhile_eq_all_conv)
    have dw: "dropWhile (\<lambda>c. c \<noteq> CHR '','') (filter (\<lambda>c. c \<noteq> CHR ''.'') body) = []"
      using nd by auto
    have spec: "parseDotFree mode text =
        (if ds = [] then ParsedNull
         else case mode of
                FixedMode \<Rightarrow> ParsedFixed (makeFixed (if neg then Neg else Pos) (orElse ds ''0'') [])
              | NumberMode \<Rightarrow> ParsedNumber (signPrefix neg @ orElse ds ''0''))"
      unfolding parseDotFree_def sb Let_def prod.case tw dw
      by (simp del: filter_filter split: ParseMode.split add: filter_digit_nodot ds_def [symmetric])
    have fd: "filter isDigit ds = ds" by (simp add: ds_def)
    have code: "parseText mode text =
        (if ds = [] then ParsedNull
         else case mode of
                FixedMode \<Rightarrow> ParsedFixed (makeFixed (if neg then Neg else Pos) (orElse ds ''0'') [])
              | NumberMode \<Rightarrow> ParsedNumber (signPrefix neg @ orElse ds ''0''))"
    proof (cases "ds = []")
      case True
      then show ?thesis unfolding parseText_body sb Let_def prod.case n by simp
    next
      case False
      have e: "(filter kept body = []) = False" using False by (auto simp: ds_def filter_empty_conv)
      have d0: "(ds = []) = False" using False by simp
      have d1: "(ds = ''.'') = False"
      proof -
        have "ds \<noteq> ''.''"
        proof
          assume "ds = ''.''"
          then have "CHR ''.'' \<in> set (filter isDigit body)" by (simp add: ds_def)
          then show False using digits_filter_no_dot [of body] by blast
        qed
        then show ?thesis by simp
      qed
      show ?thesis
        unfolding parseText_body sb Let_def prod.case n
        by (simp only: e d0 d1 if_False simp_thms parse_parts_nocomma [OF ds_def] fd filter.simps append_Nil2 refl)
    qed
    show ?thesis by (simp only: code spec)
  next
    case True
    define a where "a = takeWhile (\<lambda>c. c \<noteq> CHR '','') body"
    define b where "b = tl (dropWhile (\<lambda>c. c \<noteq> CHR '','') body)"
    define da where "da = filter isDigit a"
    define db where "db = filter isDigit b"
    have body: "body = a @ CHR '','' # b" unfolding a_def b_def by (rule split_at_comma [OF True])
    have na: "CHR '','' \<notin> set a" unfolding a_def by (rule takeWhile_no)
    have n: "replaceFirst CHR '','' CHR ''.'' (filter (\<lambda>c. c \<noteq> CHR ''.'') (keepFirstCommaOnly (filter kept body)))
               = da @ CHR ''.'' # db"
      unfolding da_def db_def by (rule normalized_comma [OF body na])
    have nfa: "CHR '','' \<notin> set (filter (\<lambda>c. c \<noteq> CHR ''.'') a)" using na by simp
    have nodots: "filter (\<lambda>c. c \<noteq> CHR ''.'') body
                    = filter (\<lambda>c. c \<noteq> CHR ''.'') a @ CHR '','' # filter (\<lambda>c. c \<noteq> CHR ''.'') b"
      by (simp add: body)
    have tw: "takeWhile (\<lambda>c. c \<noteq> CHR '','') (filter (\<lambda>c. c \<noteq> CHR ''.'') body) = filter (\<lambda>c. c \<noteq> CHR ''.'') a"
      by (simp only: nodots takeWhile_until [OF nfa])
    have dw: "dropWhile (\<lambda>c. c \<noteq> CHR '','') (filter (\<lambda>c. c \<noteq> CHR ''.'') body) = CHR '','' # filter (\<lambda>c. c \<noteq> CHR ''.'') b"
      by (simp only: nodots dropWhile_until [OF nfa])
    have spec: "parseDotFree mode text =
        (if da = [] \<and> db = [] then ParsedNull
         else case mode of
                FixedMode \<Rightarrow> ParsedFixed (makeFixed (if neg then Neg else Pos) (orElse da ''0'') db)
              | NumberMode \<Rightarrow> ParsedNumber (signPrefix neg @ orElse da ''0'' @ (if db \<noteq> [] then ''.'' @ db else [])))"
      unfolding parseDotFree_def sb Let_def prod.case tw dw
      by (simp del: filter_filter split: ParseMode.split add: filter_digit_nodot da_def [symmetric] db_def [symmetric])
    have e: "(filter kept body = []) = False" by (simp add: body)
    have fd: "filter isDigit da = da" "filter isDigit db = db" by (simp_all add: da_def db_def)
    have z: "(da @ CHR ''.'' # db = []) = False" "(da @ CHR ''.'' # db = ''.'') = (da = [] \<and> db = [])"
      by (auto simp: append_eq_Cons_conv)
    have code: "parseText mode text =
        (if da = [] \<and> db = [] then ParsedNull
         else case mode of
                FixedMode \<Rightarrow> ParsedFixed (makeFixed (if neg then Neg else Pos) (orElse da ''0'') db)
              | NumberMode \<Rightarrow> ParsedNumber (signPrefix neg @ orElse da ''0'' @ (if db \<noteq> [] then ''.'' @ db else [])))"
      unfolding parseText_body sb Let_def prod.case n
      by (simp only: e z if_False simp_thms parse_parts_comma [OF da_def db_def] fd)
    show ?thesis by (simp only: code spec)
  qed
qed

section \<open>Texts without digits\<close>

lemma splitOn_subset: "p \<in> set (splitOn c s) \<Longrightarrow> set p \<subseteq> set s"
proof (induction c s rule: splitOn.induct)
  case (1 c s)
  show ?case
  proof (cases "c \<in> set s")
    case True
    define rest where "rest = tl (dropWhile (\<lambda>x. x \<noteq> c) s)"
    have sp: "splitOn c s = takeWhile (\<lambda>x. x \<noteq> c) s # splitOn c rest"
      using True by (subst splitOn.simps) (simp add: rest_def)
    have r: "set rest \<subseteq> set s"
      unfolding rest_def by (metis list.sel(2) list.set_sel(2) set_dropWhileD subsetI)
    have t: "set (takeWhile (\<lambda>x. x \<noteq> c) s) \<subseteq> set s" by (meson set_takeWhileD subsetI)
    from "1.prems" sp consider "p = takeWhile (\<lambda>x. x \<noteq> c) s" | "p \<in> set (splitOn c rest)" by auto
    then show ?thesis
    proof cases
      case 1
      then show ?thesis using t by simp
    next
      case 2
      then have "set p \<subseteq> set rest" using "1.IH" [OF True] by (simp add: rest_def)
      then show ?thesis using r by blast
    qed
  next
    case False
    then show ?thesis using "1.prems" by (simp add: splitOn_none)
  qed
qed

lemma elemOr_subset:
  assumes "\<And>p. p \<in> set parts \<Longrightarrow> set p \<subseteq> A"
  shows "set (elemOr parts i) \<subseteq> A"
proof (cases "i < length parts")
  case True
  then have "parts ! i \<in> set parts" by simp
  then show ?thesis using assms True by (simp add: elemOr_def)
next
  case False
  then show ?thesis by (simp add: elemOr_def)
qed

lemma no_digits_subset: "filter isDigit s = [] \<Longrightarrow> set p \<subseteq> set s \<Longrightarrow> filter isDigit p = []"
  by (auto simp: filter_empty_conv)

lemma keepFirstCommaOnly_subset: "set (keepFirstCommaOnly s) \<subseteq> set s"
proof (cases "indexOf CHR '','' s")
  case None
  then show ?thesis by (simp add: keepFirstCommaOnly_def)
next
  case (Some idx)
  have "set (take (idx + 1) s) \<subseteq> set s" by (rule set_take_subset)
  moreover have "set (filter (\<lambda>c. c \<noteq> CHR '','') (drop (idx + 1) s)) \<subseteq> set s"
    using set_drop_subset [of "idx + 1" s] by auto
  ultimately show ?thesis using Some by (simp add: keepFirstCommaOnly_def)
qed

lemma thousandPattern_needs_digit: "filter isDigit s = [] \<Longrightarrow> \<not> thousandPattern s"
proof
  assume a: "filter isDigit s = []" and t: "thousandPattern s"
  then have "takeWhile isDigit s \<noteq> []" by (auto simp: thousandPattern_def Let_def)
  then obtain x where "x \<in> set (takeWhile isDigit s)" by (cases "takeWhile isDigit s") auto
  then have "x \<in> set s" "isDigit x" by (auto dest: set_takeWhileD)
  then show False using a by (auto simp: filter_empty_conv)
qed

lemma classify_nodigits:
  assumes "filter isDigit body = []"
  shows "fst (classify body) = ''0'' \<and> (snd (classify body) = None \<or> snd (classify body) = Some [])"
proof -
  have piece: "\<And>c s i. set s \<subseteq> set body \<Longrightarrow> filter isDigit (elemOr (splitOn c s) i) = []"
  proof -
    fix c s i assume s: "set s \<subseteq> set body"
    have "set (elemOr (splitOn c s) i) \<subseteq> set s" by (rule elemOr_subset) (rule splitOn_subset)
    then show "filter isDigit (elemOr (splitOn c s) i) = []"
      using no_digits_subset [OF assms] s by blast
  qed
  have piece2: "\<And>c s i. set s \<subseteq> set body \<Longrightarrow> filter isDigit (elemOr (take 2 (splitOn c s)) i) = []"
  proof -
    fix c s i assume s: "set s \<subseteq> set body"
    have "set (elemOr (take 2 (splitOn c s)) i) \<subseteq> set s"
      by (rule elemOr_subset) (meson in_set_takeD splitOn_subset)
    then show "filter isDigit (elemOr (take 2 (splitOn c s)) i) = []"
      using no_digits_subset [OF assms] s by blast
  qed
  have k: "set (keepFirstCommaOnly (filter (\<lambda>c. isDigit c \<or> c = CHR '','') body)) \<subseteq> set body"
    using keepFirstCommaOnly_subset [of "filter (\<lambda>c. isDigit c \<or> c = CHR '','') body"] by auto
  have sp: "set (filter (\<lambda>c. \<not> isSpace c) body) \<subseteq> set body" by auto
  have np: "\<not> thousandPattern (filter (\<lambda>c. \<not> isSpace c) body)"
    by (rule thousandPattern_needs_digit) (use assms in \<open>auto simp: filter_empty_conv\<close>)
  show ?thesis
    using assms np by (simp add: classify_def Let_def piece [OF k] piece2 [OF sp] orElse_def)
qed

lemma group_zero: "groupThousandsStr ''0'' = ''0''"
  by (simp add: eval_defs)

lemma formatText_nodigits:
  assumes "filter isDigit text = []" "decimals opts = Auto"
  shows "formatText text opts = signPrefix (startsWith (trim text) CHR ''-'') @ ''0''"
proof -
  obtain neg body where sb: "signedBody text = (neg, body)" by (cases "signedBody text") auto
  then have neg: "neg = startsWith (trim text) CHR ''-''" by (auto simp: signedBody_def Let_def)
  have "filter isDigit body = []"
    by (rule no_digits_subset [OF assms(1) signedBody_subset [OF sb]])
  then have c: "fst (classify body) = ''0''" "snd (classify body) = None \<or> snd (classify body) = Some []"
    using classify_nodigits by blast+
  have "finish opts (fst (classify body)) (snd (classify body)) = ''0''"
    using finish_auto_none [OF assms(2) c(2), of "fst (classify body)"] by (simp add: c(1) group_zero)
  then show ?thesis by (simp add: formatText_alt sb neg)
qed

lemma parseText_nodigits:
  assumes "filter isDigit text = []"
  shows "parseText mode text = ParsedNull"
proof -
  obtain neg body where sb: "signedBody text = (neg, body)" by (cases "signedBody text") auto
  have nb: "filter isDigit body = []"
    by (rule no_digits_subset [OF assms signedBody_subset [OF sb]])
  define nodots where "nodots = filter (\<lambda>c. c \<noteq> CHR ''.'') body"
  have nn: "filter isDigit nodots = []" by (rule no_digits_subset [OF nb]) (auto simp: nodots_def)
  have a: "filter isDigit (takeWhile (\<lambda>c. c \<noteq> CHR '','') nodots) = []"
    by (rule no_digits_subset [OF nn]) (meson set_takeWhileD subsetI)
  have "set (drop 1 (dropWhile (\<lambda>c. c \<noteq> CHR '','') nodots)) \<subseteq> set nodots"
    by (meson in_set_dropD set_dropWhileD subsetI)
  then have b: "filter isDigit (drop 1 (dropWhile (\<lambda>c. c \<noteq> CHR '','') nodots)) = []"
    by (rule no_digits_subset [OF nn])
  show ?thesis
    unfolding parseText_eq parseDotFree_def sb prod.case Let_def nodots_def [symmetric]
    by (simp only: a b simp_thms if_True)
qed

lemma trim_Cons: "\<not> isSpace c \<Longrightarrow> startsWith (trim (c # r)) c"
proof -
  assume a: "\<not> isSpace c"
  have "dropWhile isSpace (xs @ [c]) = dropWhile isSpace xs @ [c]" for xs
    using a by (induction xs) auto
  then have "trim (c # r) = c # rev (dropWhile isSpace (rev r))" using a by (simp add: trim_def)
  then show ?thesis by (simp add: startsWith_def)
qed

section \<open>Properties of formatIdr and parseIdr\<close>

text \<open>
  C1. The exact round trip (parse in fixed mode, format the FixedIdr, parse again) is to
  give back the same sign, scale and units. It does not at \<open>"1,234"\<close>: the exact parse has
  units 1234 and scale 3, its canonical string \<open>"1.234"\<close> matches the thousands pattern and
  is formatted as the integer \<open>"1.234"\<close>, which parses back with scale 0.
\<close>

theorem fixed_round_trip_scale_three:
  "parseIdr (Str ''1,234'') FixedMode = ParsedFixed \<lparr>sign = Pos, units = 1234, scale = 3\<rparr> \<and>
   toString \<lparr>sign = Pos, units = 1234, scale = 3\<rparr> = ''1.234'' \<and>
   formatIdr (FixedV \<lparr>sign = Pos, units = 1234, scale = 3\<rparr>) defaultOptions = ''1.234'' \<and>
   parseIdr (Str ''1.234'') FixedMode = ParsedFixed \<lparr>sign = Pos, units = 1234, scale = 0\<rparr>"
  by (simp add: eval_defs)

text \<open>
  C2. With \<open>decimals = N\<close>, \<open>N\<close> a non-negative integer, the integer digits \<open>I\<close> and
  decimal digits \<open>D\<close> of the classification are rounded half up to exactly \<open>N\<close> decimals:
  with \<open>R\<close> the number \<open>I.D\<close> rounded to units of \<open>10^-N\<close>, the output is the sign, the
  grouped numeral of \<open>R div 10^N\<close> and, when \<open>N > 0\<close>, a comma and the \<open>N\<close>-digit numeral
  of \<open>R mod 10^N\<close>, so a carry runs through the whole integer part. For \<open>N = 0\<close> there is
  no decimal part and the integer part is \<open>I\<close> plus one exactly when the first decimal digit
  is at least 5. (By \<open>roundHalfUp_cut\<close>, \<open>R\<close> is the number cut after \<open>N\<close> decimals plus one
  unit when the next digit is at least 5.)
\<close>

theorem formatIdr_fixed_decimals_rounds:
  assumes "text \<noteq> []" and "0 \<le> n" and "decimals opts = Decimals n"
    and "signedBody text = (neg, body)" and "classify body = (I, D)"
  shows "formatIdr (Str text) opts =
           (let R = roundHalfUp (natOfDigits (I @ decimalsText D)) (length (decimalsText D)) (nat n)
            in signPrefix neg @ groupThousandsStr (natToString (R div 10 ^ nat n))
                 @ (if n = 0 then [] else CHR '','' # padStart (nat n) CHR ''0'' (natToString (R mod 10 ^ nat n))))
         \<and> roundHalfUp (natOfDigits (I @ decimalsText D)) (length (decimalsText D)) 0
             = natOfDigits I + (case decimalsText D of [] \<Rightarrow> 0 | c # _ \<Rightarrow> if 5 \<le> digitVal c then 1 else 0)"
proof -
  have "list_all isDigit (decimalsText D)"
    using classify_wf [OF assms(5)] by (auto simp: decimalsText_def split: option.splits)
  then have "roundHalfUp (natOfDigits (I @ decimalsText D)) (length (decimalsText D)) 0
             = natOfDigits I + (case decimalsText D of [] \<Rightarrow> 0 | c # _ \<Rightarrow> if 5 \<le> digitVal c then 1 else 0)"
    by (rule roundHalfUp_zero)
  moreover have "formatIdr (Str text) opts = formatText text opts" using assms(1) by simp
  ultimately show ?thesis
    using formatText_rounds [OF assms(4,5,3,2)] by (simp only: Let_def simp_thms)
qed

theorem formatIdr_fixed_decimals_rounds_witness:
  "''999,99'' \<noteq> [] \<and> (0::int) \<le> 1 \<and> decimals \<lparr>decimals = Decimals 1, padZeros = False\<rparr> = Decimals 1
   \<and> signedBody ''999,99'' = (False, ''999,99'') \<and> classify ''999,99'' = (''999'', Some ''99'')
   \<and> formatIdr (Str ''999,99'') \<lparr>decimals = Decimals 1, padZeros = False\<rparr> = ''1.000,0''"
proof -
  have h0: "''999,99'' \<noteq> []" and h00: "(0::int) \<le> 1" by simp_all
  have h1: "signedBody ''999,99'' = (False, ''999,99'')" by (simp add: signedBody_def eval_defs)
  have h2: "classify ''999,99'' = (''999'', Some ''99'')" by (simp add: eval_defs)
  have h3: "decimals \<lparr>decimals = Decimals 1, padZeros = False\<rparr> = Decimals 1" by simp
  have t1: "roundHalfUp (natOfDigits (''999'' @ decimalsText (Some ''99''))) (length (decimalsText (Some ''99''))) (nat 1) = 10000"
    by (simp add: roundHalfUp_def natOfDigits_def digitVal_def decimalsText_def)
  have t2: "natToString (10000 div 10 ^ nat 1) = ''1000''"
    by (simp add: natToString.simps digitChar_def)
  have t3: "padStart (nat 1) CHR ''0'' (natToString (10000 mod 10 ^ nat 1)) = ''0''"
    by (simp add: natToString.simps digitChar_def padStart_def)
  have t4: "groupThousandsStr ''1000'' = ''1.000''"
    by (simp add: groupThousandsStr_def stripLeadingZeros_def orElse_def groupLoop.simps Let_def)
  have "formatIdr (Str ''999,99'') \<lparr>decimals = Decimals 1, padZeros = False\<rparr> = ''1.000,0''"
    unfolding formatIdr_fixed_decimals_rounds [OF h0 h00 h3 h1 h2, THEN conjunct1] Let_def t1 t2 t3 t4
    by (simp add: signPrefix_def)
  then show ?thesis using h1 h2 by simp
qed

text \<open>
  The dot branch as the source runs it, under \<open>decimals = "auto"\<close>: the pattern is tested
  on \<open>s\<close>, the trimmed text without a leading minus and with white space removed, but
  with any other noise character still in it. If \<open>s\<close> matches, the output is the grouping
  of its digits and has no comma; otherwise the digits before the first dot are the integer
  part and the digits between it and the next dot (or the end) are the decimal part.
\<close>

lemma dot_branch_auto:
  assumes "text \<noteq> []" and "CHR ''.'' \<in> set text" and "CHR '','' \<notin> set text"
    and "decimals opts = Auto" and "signedBody text = (neg, body)"
  shows "(let s = filter (\<lambda>c. \<not> isSpace c) body;
              left = takeWhile (\<lambda>c. c \<noteq> CHR ''.'') s;
              right = takeWhile (\<lambda>c. c \<noteq> CHR ''.'') (tl (dropWhile (\<lambda>c. c \<noteq> CHR ''.'') s));
              out = formatIdr (Str text) opts
          in if thousandPattern s
             then out = signPrefix neg @ groupThousandsStr (filter (\<lambda>c. c \<noteq> CHR ''.'') s)
                  \<and> CHR '','' \<notin> set out
             else out = signPrefix neg @ groupThousandsStr (orElse (filter isDigit left) ''0'')
                          @ (if filter isDigit right = [] then []
                             else CHR '','' # (if padZeros opts then padEnd 2 CHR ''0'' (filter isDigit right)
                                               else filter isDigit right)))"
proof -
  define s where "s = filter (\<lambda>c. \<not> isSpace c) body"
  have nsd: "\<not> isSpace CHR ''.''" and nsc: "\<not> isSpace CHR '',''" by (simp_all add: isSpace_def)
  have dot: "CHR ''.'' \<in> set body" using signedBody_keeps [OF assms(5) nsd] assms(2) by simp
  have com: "CHR '','' \<notin> set body" using signedBody_keeps [OF assms(5) nsc] assms(3) by simp
  define out where "out = formatIdr (Str text) opts"
  have f: "out = signPrefix neg @ finish opts (fst (classify body)) (snd (classify body))"
    using assms(1) by (simp add: out_def formatText_alt assms(5))
  show ?thesis
  proof (cases "thousandPattern s")
    case True
    have cl: "classify body = (filter (\<lambda>c. c \<noteq> CHR ''.'') s, None)"
      using classify_thousands [OF com dot] True by (simp add: s_def)
    have d: "list_all isDigit (filter (\<lambda>c. c \<noteq> CHR ''.'') s)" by (rule thousandPattern_digits [OF True])
    have out: "out = signPrefix neg @ groupThousandsStr (filter (\<lambda>c. c \<noteq> CHR ''.'') s)"
      using finish_auto_none [OF assms(4), of None] by (simp add: f cl)
    have "CHR '','' \<notin> set (signPrefix neg @ groupThousandsStr (filter (\<lambda>c. c \<noteq> CHR ''.'') s))"
      using group_no_comma [OF d] by (simp add: signPrefix_def)
    then show ?thesis using True out
      unfolding Let_def s_def [symmetric] out_def [symmetric] by simp
  next
    case False
    define I where "I = orElse (filter isDigit (takeWhile (\<lambda>c. c \<noteq> CHR ''.'') s)) ''0''"
    define R where "R = filter isDigit (takeWhile (\<lambda>c. c \<noteq> CHR ''.'') (tl (dropWhile (\<lambda>c. c \<noteq> CHR ''.'') s)))"
    have cl: "classify body = (I, Some R)"
      using classify_decimal_dot [OF com dot] False by (simp add: s_def I_def R_def)
    have "finish opts I (Some R)
            = groupThousandsStr I @ (if R = [] then [] else CHR '','' # (if padZeros opts then padEnd 2 CHR ''0'' R else R))"
      using finish_auto_none [OF assms(4), of "Some R" I] finish_auto_some [OF assms(4), of R I]
      by (cases "R = []") simp_all
    then show ?thesis using False
      unfolding Let_def s_def [symmetric] out_def [symmetric] I_def [symmetric] R_def [symmetric]
      by (simp add: f cl)
  qed
qed

text \<open>
  C3. The dot heuristic: for a text with a dot and no comma whose cleaned text (the
  characters of \<open>[0-9.,]\<close>) matches the thousands pattern, every dot is to be a thousands
  separator and the output is to have no decimal part. It is not so at \<open>"IDR 25.000"\<close>:
  the cleaned text \<open>"25.000"\<close> matches the pattern, but the source tests the text with the
  letters still in it, the test fails, and the dot is rendered as the decimal comma.
\<close>

theorem formatIdr_dot_heuristic_noise:
  "CHR ''.'' \<in> set ''IDR 25.000'' \<and> CHR '','' \<notin> set ''IDR 25.000''
   \<and> filter kept ''IDR 25.000'' = ''25.000'' \<and> thousandPattern (filter kept ''IDR 25.000'')
   \<and> formatIdr (Str ''IDR 25.000'') defaultOptions = ''25,000''
   \<and> CHR '','' \<in> set (formatIdr (Str ''IDR 25.000'') defaultOptions)
   \<and> formatIdr (Str ''25.000'') defaultOptions = ''25.000''"
  by (simp add: eval_defs)

text \<open>
  C4. On the parse path every dot is removed and the first comma, if any, is the decimal
  marker: \<open>parseIdr\<close> agrees with \<open>parseDotFree\<close> on every text and in both modes. The
  thousands heuristic of \<open>formatIdr\<close> plays no part: \<open>"12.34"\<close> parses like \<open>"1234"\<close>,
  although it is formatted as \<open>"12,34"\<close>.
\<close>

theorem parseIdr_removes_dots:
  "parseIdr (Str text) mode = (if text = [] then ParsedNull else parseDotFree mode text)
   \<and> parseIdr (Str ''12.34'') NumberMode = ParsedNumber ''1234''
   \<and> parseIdr (Str ''12.34'') NumberMode = parseIdr (Str ''1234'') NumberMode
   \<and> formatIdr (Str ''12.34'') defaultOptions = ''12,34''"
proof -
  have "parseIdr (Str text) mode = (if text = [] then ParsedNull else parseDotFree mode text)"
    by (simp add: parseText_eq)
  moreover have "parseIdr (Str ''12.34'') NumberMode = ParsedNumber ''1234''" by (simp add: eval_defs)
  moreover have "parseIdr (Str ''1234'') NumberMode = ParsedNumber ''1234''" by (simp add: eval_defs)
  moreover have "formatIdr (Str ''12.34'') defaultOptions = ''12,34''" by (simp add: eval_defs)
  ultimately show ?thesis by (simp only: simp_thms)
qed

text \<open>
  C5. Characters outside \<open>[0-9.,]\<close> are to be discarded wherever they appear, so that a
  text and the same text without them format alike. They do not in the dot branch, which
  removes white space only before it tests the thousands pattern: the letters of
  \<open>"Rp 1.500"\<close> defeat the pattern and the dot becomes the decimal point, while
  \<open>"1.500"\<close> is grouped as thousands.
\<close>

theorem formatIdr_noise_dot_branch:
  "formatIdr (Str ''Rp 1.500'') defaultOptions = ''1,500'' \<and>
   formatIdr (Str (filter (\<lambda>c. isDigit c \<or> c = CHR ''.'' \<or> c = CHR '','') ''Rp 1.500'')) defaultOptions
     = ''1.500''"
  by (simp add: eval_defs)

text \<open>
  C6. When the thousands pattern does not match, the digits after further dots are to be
  kept in the decimal part. They are not: \<open>s.split(".", 2)\<close> keeps the first two pieces
  only, and \<open>"1.23.45"\<close> is rendered with the decimal digits \<open>23\<close>.
\<close>

theorem formatIdr_second_dot_drops_digits:
  "formatIdr (Str ''1.23.45'') defaultOptions = ''1,23''"
  by (simp add: eval_defs)

text \<open>
  C7, as amended. For a non-empty text without any digit, \<open>parseIdr\<close> returns null in
  both modes and \<open>formatIdr\<close> under \<open>decimals = "auto"\<close> returns \<open>"0"\<close>, with the minus sign
  in front (\<open>"-0"\<close>) when the trimmed text starts with one; absent and empty input give
  the empty text and null.
\<close>

theorem formatIdr_no_digits:
  assumes "text \<noteq> []" and "filter isDigit text = []" and "decimals opts = Auto"
  shows "parseIdr (Str text) mode = ParsedNull
         \<and> formatIdr (Str text) opts = (if startsWith (trim text) CHR ''-'' then ''-0'' else ''0'')
         \<and> formatIdr Null opts = [] \<and> formatIdr (Str []) opts = []
         \<and> parseIdr Null mode = ParsedNull \<and> parseIdr (Str []) mode = ParsedNull"
  using assms formatText_nodigits [OF assms(2,3)] parseText_nodigits [OF assms(2), of mode]
  by (simp add: signPrefix_def)

theorem formatIdr_no_digits_witness:
  "''abc'' \<noteq> [] \<and> filter isDigit ''abc'' = [] \<and> decimals defaultOptions = Auto
   \<and> parseIdr (Str ''abc'') NumberMode = ParsedNull \<and> formatIdr (Str ''abc'') defaultOptions = ''0''"
proof -
  have h: "''abc'' \<noteq> []" "filter isDigit ''abc'' = []" "decimals defaultOptions = Auto"
    by (simp_all add: isDigit_def defaultOptions_def)
  have s: "\<not> startsWith (trim ''abc'') CHR ''-''" by (simp add: eval_defs)
  show ?thesis using formatIdr_no_digits [OF h, of NumberMode] h s by simp
qed

text \<open>
  C7 as stated fails where the text starts with a minus sign: the sign is put back in
  front of the zero.
\<close>

theorem formatIdr_no_digits_minus_counterexample:
  "''-Rp'' \<noteq> [] \<and> filter isDigit ''-Rp'' = [] \<and> formatIdr (Str ''-Rp'') defaultOptions = ''-0''
   \<and> formatIdr (Str ''-Rp'') defaultOptions \<noteq> ''0''"
  by (simp add: eval_defs)

text \<open>
  C8. With \<open>decimals = "auto"\<close> and \<open>padZeros = true\<close>, decimal digits that are present are
  followed by zeros up to a length of two, and the output has a comma exactly when the
  classification yields decimal digits: nothing is appended to a text without them.
\<close>

theorem formatIdr_auto_padZeros:
  assumes "text \<noteq> []" and "decimals opts = Auto" and "padZeros opts"
    and "signedBody text = (neg, body)" and "classify body = (I, D)"
  shows "formatIdr (Str text) opts =
           signPrefix neg @ groupThousandsStr I
             @ (if decimalsText D = [] then []
                else CHR '','' # decimalsText D @ replicate (2 - length (decimalsText D)) CHR ''0'')
         \<and> (CHR '','' \<in> set (formatIdr (Str text) opts) \<longleftrightarrow> decimalsText D \<noteq> [])"
proof -
  have I: "list_all isDigit I" using classify_wf [OF assms(5)] by simp
  define out where "out = formatIdr (Str text) opts"
  have f: "out = signPrefix neg @ finish opts I D"
    unfolding out_def by (rule formatIdr_Str [OF assms(1,4,5)])
  have nc: "CHR '','' \<notin> set (signPrefix neg @ groupThousandsStr I)"
    using group_no_comma [OF I] by (simp add: signPrefix_def)
  show ?thesis
  proof (cases "decimalsText D = []")
    case True
    then have "D = None \<or> D = Some []" by (cases D) (simp_all add: decimalsText_def)
    then have "finish opts I D = groupThousandsStr I" by (rule finish_auto_none [OF assms(2)])
    then show ?thesis using True nc unfolding out_def [symmetric] by (simp add: f)
  next
    case False
    then obtain d where d: "D = Some d" "d \<noteq> []" by (cases D) (simp_all add: decimalsText_def)
    have "finish opts I D = groupThousandsStr I @ CHR '','' # padEnd 2 CHR ''0'' d"
      using finish_auto_some [OF assms(2) d(2), of I] assms(3) by (simp add: d(1))
    then show ?thesis using False d unfolding out_def [symmetric] by (simp add: f decimalsText_def padEnd_def)
  qed
qed

theorem formatIdr_auto_padZeros_witness:
  "formatIdr (Str ''1050,5'') \<lparr>decimals = Auto, padZeros = True\<rparr> = ''1.050,50''
   \<and> classify ''1050,5'' = (''1050'', Some ''5'')
   \<and> formatIdr (Str ''1050'') \<lparr>decimals = Auto, padZeros = True\<rparr> = ''1.050''
   \<and> classify ''1050'' = (''1050'', None)"
proof -
  have o: "decimals \<lparr>decimals = Auto, padZeros = True\<rparr> = Auto" "padZeros \<lparr>decimals = Auto, padZeros = True\<rparr>"
    by simp_all
  have a: "''1050,5'' \<noteq> []" "signedBody ''1050,5'' = (False, ''1050,5'')" "classify ''1050,5'' = (''1050'', Some ''5'')"
    by (simp_all add: signedBody_def eval_defs)
  have b: "''1050'' \<noteq> []" "signedBody ''1050'' = (False, ''1050'')" "classify ''1050'' = (''1050'', None)"
    by (simp_all add: signedBody_def eval_defs)
  have g: "groupThousandsStr ''1050'' = ''1.050''" by (simp add: eval_defs)
  have "formatIdr (Str ''1050,5'') \<lparr>decimals = Auto, padZeros = True\<rparr> = ''1.050,50''"
    using formatIdr_auto_padZeros [OF a(1) o a(2,3)] g by (simp add: decimalsText_def signPrefix_def)
  moreover have "formatIdr (Str ''1050'') \<lparr>decimals = Auto, padZeros = True\<rparr> = ''1.050''"
    using formatIdr_auto_padZeros [OF b(1) o b(2,3)] g by (simp add: decimalsText_def signPrefix_def)
  ultimately show ?thesis using a(3) b(3) by simp
qed

text \<open>
  C9. Formatting is idempotent: for every value (absent, text, number or FixedIdr) and all
  options, formatting the formatted text again returns it unchanged.
\<close>

theorem formatIdr_idempotent: "formatIdr (Str (formatIdr v opts)) opts = formatIdr v opts"
proof (cases v)
  case Null
  then show ?thesis by simp
next
  case (Str s)
  then show ?thesis by (simp add: formatText_idem formatText_nonempty)
next
  case (Num s)
  then show ?thesis by (simp add: formatText_idem formatText_nonempty)
next
  case (FixedV fx)
  then show ?thesis by (simp add: Let_def formatText_idem formatText_nonempty)
qed

text \<open>
  C10. A text that starts with a minus sign and has no digit after it is formatted as
  \<open>"-0"\<close> under \<open>decimals = "auto"\<close>, while \<open>parseIdr\<close> returns null for it in both modes.
\<close>

theorem formatIdr_minus_zero:
  assumes "filter isDigit rest = []" and "decimals opts = Auto"
  shows "formatIdr (Str (CHR ''-'' # rest)) opts = ''-0'' \<and> parseIdr (Str (CHR ''-'' # rest)) mode = ParsedNull"
proof -
  have nd: "filter isDigit (CHR ''-'' # rest) = []" using assms(1) by (simp add: isDigit_def)
  have "\<not> isSpace CHR ''-''" by (simp add: isSpace_def)
  then have "startsWith (trim (CHR ''-'' # rest)) CHR ''-''" by (rule trim_Cons)
  then show ?thesis
    using formatText_nodigits [OF nd assms(2)] parseText_nodigits [OF nd, of mode] by (simp add: signPrefix_def)
qed

theorem formatIdr_minus_zero_witness:
  "filter isDigit ''abc'' = [] \<and> decimals defaultOptions = Auto
   \<and> formatIdr (Str ''-abc'') defaultOptions = ''-0'' \<and> parseIdr (Str ''-abc'') FixedMode = ParsedNull"
proof -
  have h: "filter isDigit ''abc'' = []" "decimals defaultOptions = Auto"
    by (simp_all add: isDigit_def defaultOptions_def)
  show ?thesis using formatIdr_minus_zero [OF h, of FixedMode] h by simp
qed

end
